theory Spec2Isabelle
  imports Main
begin

section \<open>The point-code store of database/db.py\<close>

text \<open>
  The module keeps one SQLite connection; every function runs its statements and
  commits. The table \<^verbatim>\<open>point_code\<close> is modelled as the list of its rows, in
  insertion order, and every function takes the table and returns its result together
  with the table it leaves behind. The \<^verbatim>\<open>except sqlite3.Error\<close> handlers answer
  faults of the store itself (a locked or unreadable file); the in-memory table has
  none, so those branches have no counterpart here. The SQLite errors that the data
  itself causes are modelled: \<^verbatim>\<open>IntegrityError\<close> on a repeated primary key, and
  \<^verbatim>\<open>integer overflow\<close> of \<^verbatim>\<open>SUM\<close> in \<^verbatim>\<open>get_group_point\<close>, which that function
  catches and returns.
\<close>

record point_row =
  code :: string
  point :: int
  used_by :: int

type_synonym point_code = "point_row list"

text \<open>The type \<^verbatim>\<open>Error = Union[str, None]\<close> of the source.\<close>

type_synonym Error = "string option"

datatype sql_error = IntegrityError

text \<open>
  \<^verbatim>\<open>UPDATE point_code SET used_by = ? WHERE code = ?\<close>: every row with the code
  gets the new value.
\<close>

definition update_used_by :: "int \<Rightarrow> string \<Rightarrow> point_code \<Rightarrow> point_code" where
  "update_used_by g c tbl = map (\<lambda>r. if code r = c then r\<lparr>used_by := g\<rparr> else r) tbl"

text \<open>
  \<^verbatim>\<open>use_point_code(code, group)\<close>: \<^verbatim>\<open>fetchone\<close> of the select by code is the first
  row with the code, or \<^verbatim>\<open>None\<close>.
\<close>

definition use_point_code ::
  "string \<Rightarrow> int \<Rightarrow> point_code \<Rightarrow> (int option \<times> Error) \<times> point_code" where
  "use_point_code c grp tbl =
     (case find (\<lambda>r. code r = c) tbl of
        None \<Rightarrow> ((None, Some ''not exists''), tbl)
      | Some res \<Rightarrow>
          if used_by res > 0 \<or> used_by res = - 1 then ((None, Some ''used''), tbl)
          else ((Some (point res), None), update_used_by grp c tbl))"

text \<open>
  \<^verbatim>\<open>delete_point_code(code)\<close>: the select is filtered on the code and on
  \<^verbatim>\<open>used_by = 0\<close>; the update is by code alone.
\<close>

definition delete_point_code :: "string \<Rightarrow> point_code \<Rightarrow> (unit option \<times> Error) \<times> point_code" where
  "delete_point_code c tbl =
     (case find (\<lambda>r. code r = c \<and> used_by r = 0) tbl of
        None \<Rightarrow> ((None, Some ''used''), tbl)
      | Some res \<Rightarrow> ((None, None), update_used_by (- 1) c tbl))"

text \<open>
  Modelled from the spec: database/init.sql, which creates the tables, is not among the
  sources. The spec gives the schema
  \<^verbatim>\<open>point_code(code TEXT PRIMARY KEY, point INTEGER, used_by INTEGER DEFAULT 0)\<close>:
  an insert of a code the table already holds raises \<^verbatim>\<open>IntegrityError\<close>, and a new
  row starts with \<^verbatim>\<open>used_by = 0\<close>.

  \<^verbatim>\<open>con.executemany(sql, codes)\<close> inserts the pairs one after the other inside one
  transaction, so a later pair of the batch also collides with an earlier one.
\<close>

fun executemany :: "(string \<times> int) list \<Rightarrow> point_code \<Rightarrow> sql_error + point_code" where
  "executemany [] tbl = Inr tbl"
| "executemany ((c, p) # rest) tbl =
     (if c \<in> code ` set tbl then Inl IntegrityError
      else executemany rest (tbl @ [\<lparr>code = c, point = p, used_by = 0\<rparr>]))"

text \<open>
  One pass of the body of \<^verbatim>\<open>while True\<close> in \<^verbatim>\<open>gen_point_code\<close>, as far as the table
  is concerned: the batch is committed, or \<^verbatim>\<open>con.rollback()\<close> restores the table.
\<close>

definition insert_batch :: "(string \<times> int) list \<Rightarrow> point_code \<Rightarrow> point_code" where
  "insert_batch codes tbl = (case executemany codes tbl of Inl e \<Rightarrow> tbl | Inr tbl' \<Rightarrow> tbl')"

text \<open>
  \<^verbatim>\<open>gen_code\<close> of the module utils is not among the sources. It is a parameter: the
  sequence \<open>gen_code 0, gen_code 1, \<dots>\<close> of the strings its successive calls return,
  with \<open>i\<close> the number of calls made so far. The loop has no bound, so the function
  is partial: \<open>None\<close> stands for a loop that never returns.
\<close>

partial_function (option) gen_point_code ::
  "(nat \<Rightarrow> string) \<Rightarrow> nat \<Rightarrow> int \<Rightarrow> int \<Rightarrow> point_code
     \<Rightarrow> ((string list option \<times> Error) \<times> point_code \<times> nat) option" where
  "gen_point_code gen_code i pt amount tbl =
     (let codes = map (\<lambda>k. (gen_code (i + k), pt)) [0..<nat amount] in
        case executemany codes tbl of
          Inr tbl' \<Rightarrow> Some ((Some (map fst codes), None), tbl', i + nat amount)
        | Inl IntegrityError \<Rightarrow> gen_point_code gen_code (i + nat amount) pt amount tbl)"

declare gen_point_code.simps [code]

text \<open>
  The codes the generator hands to the pass that starts after \<open>i\<close> calls, and the
  condition under which the primary key accepts a batch: its codes differ from one
  another and from every code of the table.
\<close>

definition batch :: "(nat \<Rightarrow> string) \<Rightarrow> nat \<Rightarrow> nat \<Rightarrow> string list" where
  "batch gen_code i n = map (\<lambda>k. gen_code (i + k)) [0..<n]"

definition batch_fresh :: "string list \<Rightarrow> point_code \<Rightarrow> bool" where
  "batch_fresh codes tbl = (distinct codes \<and> set codes \<inter> set (map code tbl) = {})"

text \<open>The rows a committed batch adds to the table.\<close>

definition issued_rows :: "int \<Rightarrow> string list \<Rightarrow> point_code" where
  "issued_rows pt codes = map (\<lambda>c. \<lparr>code = c, point = pt, used_by = 0\<rparr>) codes"

text \<open>
  Any later history of the store is a sequence of the three operations that write to
  the table.
\<close>

datatype store_op = Redeem string int | Delete string | Insert "(string \<times> int) list"

fun apply_op :: "store_op \<Rightarrow> point_code \<Rightarrow> point_code" where
  "apply_op (Redeem c g) tbl = snd (use_point_code c g tbl)"
| "apply_op (Delete c) tbl = snd (delete_point_code c tbl)"
| "apply_op (Insert codes) tbl = insert_batch codes tbl"

fun run_ops :: "store_op list \<Rightarrow> point_code \<Rightarrow> point_code" where
  "run_ops [] tbl = tbl"
| "run_ops (op # ops) tbl = run_ops ops (apply_op op tbl)"

text \<open>The results of \<open>n\<close> calls \<^verbatim>\<open>use_point_code(code, group)\<close> in a row, and the table after them.\<close>

fun redeem_times ::
  "nat \<Rightarrow> string \<Rightarrow> int \<Rightarrow> point_code \<Rightarrow> (int option \<times> Error) list \<times> point_code" where
  "redeem_times 0 c g tbl = ([], tbl)"
| "redeem_times (Suc n) c g tbl =
     (let (res, tbl') = use_point_code c g tbl;
          (rest, tbl'') = redeem_times n c g tbl'
      in (res # rest, tbl''))"

text \<open>A code is spent in a table that holds it when each of its rows is redeemed or deleted.\<close>

definition spent :: "string \<Rightarrow> point_code \<Rightarrow> bool" where
  "spent c tbl = ((\<exists>r \<in> set tbl. code r = c) \<and>
     (\<forall>r \<in> set tbl. code r = c \<longrightarrow> used_by r > 0 \<or> used_by r = - 1))"

section \<open>Ranking\<close>

text \<open>
  The query of \<^verbatim>\<open>get_group_point\<close> keeps the rows with \<^verbatim>\<open>used_by > 0\<close>, groups them
  by \<^verbatim>\<open>used_by\<close> with \<^verbatim>\<open>SUM(point)\<close>, and orders the groups by
  \<^verbatim>\<open>point DESC, group ASC\<close>, both names being the aliases of the result columns.
  Grouping is modelled by an aggregator that runs over the rows in table order and
  keeps one running sum per key; ordering by an insertion sort.

  SQLite integers are signed 64-bit. \<^verbatim>\<open>SUM\<close> adds the values of a group one by one; once
  a running sum leaves the 64-bit range the group is marked (\<open>None\<close> here), and the
  query then fails with the error \<^verbatim>\<open>integer overflow\<close>.
\<close>

definition int64 :: "int \<Rightarrow> bool" where
  "int64 x = (- 9223372036854775808 \<le> x \<and> x \<le> 9223372036854775807)"

fun sum_step :: "int option \<Rightarrow> int \<Rightarrow> int option" where
  "sum_step None v = None"
| "sum_step (Some s) v = (if int64 (s + v) then Some (s + v) else None)"

fun group_sum_insert ::
  "int \<Rightarrow> int \<Rightarrow> (int \<times> int option) list \<Rightarrow> (int \<times> int option) list" where
  "group_sum_insert g p [] = [(g, sum_step (Some 0) p)]"
| "group_sum_insert g p ((g', s) # acc) =
     (if g' = g then (g', sum_step s p) # acc else (g', s) # group_sum_insert g p acc)"

definition group_sums :: "point_code \<Rightarrow> (int \<times> int option) list" where
  "group_sums rows = foldl (\<lambda>acc r. group_sum_insert (used_by r) (point r) acc) [] rows"

text \<open>The rows of the aggregate, or \<open>None\<close> when the sum of some group overflowed.\<close>

fun sum_results :: "(int \<times> int option) list \<Rightarrow> (int \<times> int) list option" where
  "sum_results [] = Some []"
| "sum_results ((g, None) # acc) = None"
| "sum_results ((g, Some s) # acc) =
     (case sum_results acc of None \<Rightarrow> None | Some rows \<Rightarrow> Some ((g, s) # rows))"

text \<open>\<^verbatim>\<open>ORDER BY point DESC, group ASC\<close> on rows \<open>(group, point)\<close>.\<close>

definition rank_before :: "int \<times> int \<Rightarrow> int \<times> int \<Rightarrow> bool" where
  "rank_before a b = (snd a > snd b \<or> (snd a = snd b \<and> fst a \<le> fst b))"

fun rank_insert :: "int \<times> int \<Rightarrow> (int \<times> int) list \<Rightarrow> (int \<times> int) list" where
  "rank_insert a [] = [a]"
| "rank_insert a (b # bs) = (if rank_before a b then a # b # bs else b # rank_insert a bs)"

fun rank_sort :: "(int \<times> int) list \<Rightarrow> (int \<times> int) list" where
  "rank_sort [] = []"
| "rank_sort (a # as) = rank_insert a (rank_sort as)"

text \<open>
  \<^verbatim>\<open>get_group_point()\<close>: when the query fails, the handler of \<^verbatim>\<open>sqlite3.Error\<close> returns
  no list and the message of the error; otherwise the result is the rows of the query,
  then \<open>(i, 0)\<close> for each \<open>i\<close> of \<^verbatim>\<open>range(1, 10)\<close> that is not the group of a row.
\<close>

definition get_group_point :: "point_code \<Rightarrow> (int \<times> int) list option \<times> Error" where
  "get_group_point tbl =
     (case sum_results (group_sums (filter (\<lambda>r. used_by r > 0) tbl)) of
        None \<Rightarrow> (None, Some ''integer overflow'')
      | Some sums \<Rightarrow>
          let rows = rank_sort sums;
              groups = set (map fst rows);
              res = rows @ map (\<lambda>i. (i, 0)) (filter (\<lambda>i. i \<notin> groups) [1..9])
          in (Some res, None))"

text \<open>
  The points a group redeemed, in table order, and the total it holds: their sum.
\<close>

definition group_points :: "int \<Rightarrow> point_code \<Rightarrow> int list" where
  "group_points g tbl = map point (filter (\<lambda>r. used_by r = g) tbl)"

definition group_total :: "int \<Rightarrow> point_code \<Rightarrow> int" where
  "group_total g tbl = sum_list (group_points g tbl)"

text \<open>
  The sums fit when, for every group that redeemed a code, the sum of each initial
  stretch of its points lies in the 64-bit range.
\<close>

definition sums_fit :: "point_code \<Rightarrow> bool" where
  "sums_fit tbl =
     (\<forall>g \<in> set (map used_by tbl). g > 0 \<longrightarrow>
        (\<forall>n \<in> {..length (group_points g tbl)}. int64 (sum_list (take n (group_points g tbl)))))"

text \<open>The order the ranking promises: more points first, the smaller group id first among equals.\<close>

definition ranked_above :: "int \<times> int \<Rightarrow> int \<times> int \<Rightarrow> bool" where
  "ranked_above a b = (snd a > snd b \<or> (snd a = snd b \<and> fst a < fst b))"

section \<open>The submission log and the scoreboard\<close>

text \<open>
  A task of the catalog is a dictionary with the key \<^verbatim>\<open>task_id\<close> and, for some tasks,
  the key \<^verbatim>\<open>max_attempt\<close>.
\<close>

record task =
  task_id :: string
  max_attempt :: "int option"

record submission =
  group_id :: int
  task_id :: string
  password :: string
  is_correct :: bool

type_synonym submissions = "submission list"

text \<open>
  \<^verbatim>\<open>SUM\<close> over no rows is \<^verbatim>\<open>NULL\<close>, which \<^verbatim>\<open>COALESCE(_, 0)\<close> turns into 0; a
  comparison such as \<^verbatim>\<open>is_correct = 1\<close> is the integer 1 or 0.
\<close>

definition sql_sum :: "int list \<Rightarrow> int option" where
  "sql_sum xs = (if xs = [] then None else Some (sum_list xs))"

definition coalesce :: "int option \<Rightarrow> int \<Rightarrow> int" where
  "coalesce v d = (case v of None \<Rightarrow> d | Some x \<Rightarrow> x)"

definition sql_bool :: "bool \<Rightarrow> int" where
  "sql_bool b = (if b then 1 else 0)"

definition success_count :: "submission list \<Rightarrow> int" where
  "success_count rows = coalesce (sql_sum (map (\<lambda>r. sql_bool (is_correct r = True)) rows)) 0"

definition fail_count :: "submission list \<Rightarrow> int" where
  "fail_count rows = coalesce (sql_sum (map (\<lambda>r. sql_bool (is_correct r = False)) rows)) 0"

text \<open>\<^verbatim>\<open>get_submissions_statistics(group_id, task_id)\<close>: one row of two sums, always.\<close>

definition get_submissions_statistics ::
  "int \<Rightarrow> string \<Rightarrow> submissions \<Rightarrow> (int \<times> int) option \<times> Error" where
  "get_submissions_statistics g t subs =
     (let rows = filter (\<lambda>r. group_id r = g \<and> submission.task_id r = t) subs
      in (Some (success_count rows, fail_count rows), None))"

text \<open>
  The query of \<^verbatim>\<open>get_scoreboard\<close>: one row \<open>(group_id, task_id, success_count,
  fail_count)\<close> for each pair that has a submission. SQL leaves the order of the groups
  open; the model takes the order of the last submission of each pair.
\<close>

definition scoreboard_rows :: "submissions \<Rightarrow> (int \<times> string \<times> int \<times> int) list" where
  "scoreboard_rows subs =
     map (\<lambda>(g, t).
            let rows = filter (\<lambda>r. group_id r = g \<and> submission.task_id r = t) subs
            in (g, t, success_count rows, fail_count rows))
         (remdups (map (\<lambda>r. (group_id r, submission.task_id r)) subs))"

text \<open>
  Exceptions of Python that no handler of the module catches: they leave the function.
  \<open>Raised\<close> stands for any exception other than the two the loop itself raises; only
  \<^verbatim>\<open>get_task_by_id\<close> can raise one.
\<close>

datatype py_error = KeyError | TypeError | Raised string

text \<open>The three statements that set \<^verbatim>\<open>status\<close> in the loop of \<^verbatim>\<open>get_scoreboard\<close>.\<close>

definition status_of :: "task \<Rightarrow> int \<Rightarrow> int \<Rightarrow> int" where
  "status_of tk succ fails =
     (if (case max_attempt tk of None \<Rightarrow> False | Some m \<Rightarrow> fails \<ge> m) then - 1
      else if succ > 0 then 1
      else 0)"

type_synonym scoreboard = "int \<rightharpoonup> (string \<rightharpoonup> int)"

text \<open>
  The module task is not among the sources. Its \<^verbatim>\<open>get_all_tasks()\<close> is the parameter
  \<open>tasks\<close>, and its \<^verbatim>\<open>get_task_by_id\<close> is the parameter \<open>lookup\<close>, which raises
  (\<open>Inl\<close>), returns \<^verbatim>\<open>None\<close> or returns a task. On \<^verbatim>\<open>None\<close> the test
  \<^verbatim>\<open>'max_attempt' in task\<close> raises \<^verbatim>\<open>TypeError\<close>; \<^verbatim>\<open>table[group_id]\<close> raises
  \<^verbatim>\<open>KeyError\<close> for a group that is no key of the table; the assignment to
  \<^verbatim>\<open>table[group_id][task_id]\<close> adds the key \<^verbatim>\<open>task_id\<close> when the inner dictionary
  lacks it.
\<close>

fun scoreboard_loop ::
  "(string \<Rightarrow> py_error + task option) \<Rightarrow> (int \<times> string \<times> int \<times> int) list \<Rightarrow> scoreboard
     \<Rightarrow> py_error + scoreboard" where
  "scoreboard_loop lookup [] table = Inr table"
| "scoreboard_loop lookup ((g, t, succ, fails) # rows) table =
     (case lookup t of
        Inl e \<Rightarrow> Inl e
      | Inr None \<Rightarrow> Inl TypeError
      | Inr (Some tk) \<Rightarrow>
          (case table g of
             None \<Rightarrow> Inl KeyError
           | Some inner \<Rightarrow>
               scoreboard_loop lookup rows (table(g \<mapsto> inner(t \<mapsto> status_of tk succ fails)))))"

text \<open>
  \<^verbatim>\<open>{i: {task['task_id']: 0 for task in tasks} for i in range(1, 10)}\<close>: a fresh
  inner dictionary for each of the nine groups.
\<close>

definition initial_table :: "task list \<Rightarrow> scoreboard" where
  "initial_table tasks =
     map_of (map (\<lambda>i. (i, map_of (map (\<lambda>tk. (task.task_id tk, 0)) tasks))) [1..9])"

definition get_scoreboard ::
  "task list \<Rightarrow> (string \<Rightarrow> py_error + task option) \<Rightarrow> submissions
     \<Rightarrow> py_error + (scoreboard option \<times> Error)" where
  "get_scoreboard tasks lookup subs =
     (case scoreboard_loop lookup (scoreboard_rows subs) (initial_table tasks) of
        Inl e \<Rightarrow> Inl e
      | Inr table \<Rightarrow> Inr (Some table, None))"

text \<open>
  Modelled from the spec: \<^verbatim>\<open>get_task_by_id\<close> of the module task, which is not among
  the sources. The spec gives \<^verbatim>\<open>GetTaskById(id) -> Task or absent\<close> over the catalog
  of \<^verbatim>\<open>GetAllTasks()\<close>: the task of the catalog with the identifier, or \<^verbatim>\<open>None\<close>.
\<close>

definition get_task_by_id :: "task list \<Rightarrow> string \<Rightarrow> py_error + task option" where
  "get_task_by_id tasks tid = Inr (find (\<lambda>tk. task.task_id tk = tid) tasks)"

text \<open>The status a returned scoreboard holds for a group and a task, if any.\<close>

definition status_at ::
  "py_error + (scoreboard option \<times> Error) \<Rightarrow> int \<Rightarrow> string \<Rightarrow> int option" where
  "status_at res g t =
     (case res of
        Inr (Some table, None) \<Rightarrow> (case table g of None \<Rightarrow> None | Some inner \<Rightarrow> inner t)
      | _ \<Rightarrow> None)"

section \<open>Properties of the point-code store\<close>

lemma find_update_used_by:
  "find (\<lambda>r. code r = c) (update_used_by g c' tbl) =
     map_option (\<lambda>r. if c = c' then r\<lparr>used_by := g\<rparr> else r) (find (\<lambda>r. code r = c) tbl)"
  by (induction tbl) (auto simp: update_used_by_def)

lemma codes_update_used_by: "map code (update_used_by g c tbl) = map code tbl"
  by (induction tbl) (simp_all add: update_used_by_def)

lemma in_update_used_by:
  "r \<in> set (update_used_by g c tbl) \<Longrightarrow>
     \<exists>r0 \<in> set tbl. r = (if code r0 = c then r0\<lparr>used_by := g\<rparr> else r0)"
  unfolding update_used_by_def set_map by (erule imageE) (rule bexI)

lemma used_by_update_same:
  assumes "r \<in> set (update_used_by g c tbl)" "code r = c"
  shows "used_by r = g"
proof -
  from in_update_used_by [OF assms(1)] obtain r0
    where r0: "r = (if code r0 = c then r0\<lparr>used_by := g\<rparr> else r0)" by blast
  show ?thesis
  proof (cases "code r0 = c")
    case True
    with r0 show ?thesis by simp
  next
    case False
    with r0 assms(2) show ?thesis by simp
  qed
qed

lemma used_by_update_other:
  assumes "r \<in> set (update_used_by g c' tbl)" "code r \<noteq> c'"
  shows "r \<in> set tbl"
proof -
  from in_update_used_by [OF assms(1)] obtain r0
    where r0: "r0 \<in> set tbl" "r = (if code r0 = c' then r0\<lparr>used_by := g\<rparr> else r0)" by blast
  show ?thesis
  proof (cases "code r0 = c'")
    case True
    with r0 assms(2) show ?thesis by simp
  next
    case False
    with r0 show ?thesis by simp
  qed
qed

lemma spent_iff:
  "spent c tbl \<longleftrightarrow> c \<in> set (map code tbl) \<and> (\<forall>r \<in> set tbl. code r = c \<longrightarrow> used_by r > 0 \<or> used_by r = - 1)"
  unfolding spent_def by (simp add: image_iff) blast

lemma spent_found:
  assumes "spent c tbl"
  shows "\<exists>r. find (\<lambda>r. code r = c) tbl = Some r \<and> (used_by r > 0 \<or> used_by r = - 1)"
proof (cases "find (\<lambda>r. code r = c) tbl")
  case None
  with assms show ?thesis by (auto simp: spent_def find_None_iff)
next
  case (Some r)
  then have "r \<in> set tbl" "code r = c"
    by (auto simp: find_Some_iff)
  with assms Some show ?thesis by (auto simp: spent_def)
qed

lemma use_point_code_spent:
  "spent c tbl \<Longrightarrow> use_point_code c g tbl = ((None, Some ''used''), tbl)"
  using spent_found [of c tbl] by (auto simp: use_point_code_def)

lemma spent_update_other:
  assumes "spent c tbl" "c' \<noteq> c"
  shows "spent c (update_used_by g c' tbl)"
  unfolding spent_iff codes_update_used_by
proof (intro conjI ballI impI)
  from assms(1) show "c \<in> set (map code tbl)" by (simp add: spent_iff)
next
  fix r assume "r \<in> set (update_used_by g c' tbl)" "code r = c"
  with assms(2) have "r \<in> set tbl" by (auto dest: used_by_update_other)
  with assms(1) \<open>code r = c\<close> show "used_by r > 0 \<or> used_by r = - 1"
    by (simp add: spent_def)
qed

lemma spent_update_same:
  assumes "c \<in> set (map code tbl)" "g > 0 \<or> g = - 1"
  shows "spent c (update_used_by g c tbl)"
  unfolding spent_iff codes_update_used_by
proof (intro conjI ballI impI)
  from assms(1) show "c \<in> set (map code tbl)" .
next
  fix r assume "r \<in> set (update_used_by g c tbl)" "code r = c"
  then have "used_by r = g" by (rule used_by_update_same)
  with assms(2) show "used_by r > 0 \<or> used_by r = - 1" by simp
qed


lemma spent_use_point_code:
  assumes "spent c tbl"
  shows "spent c (snd (use_point_code c' g tbl))"
proof (cases "c' = c")
  case True
  with assms show ?thesis by (simp add: use_point_code_spent)
next
  case False
  show ?thesis
  proof (cases "find (\<lambda>r. code r = c') tbl")
    case None
    with assms show ?thesis by (simp add: use_point_code_def)
  next
    case (Some r)
    with assms False show ?thesis
      by (simp add: use_point_code_def spent_update_other)
  qed
qed

lemma spent_delete_point_code:
  assumes "spent c tbl"
  shows "spent c (snd (delete_point_code c' tbl))"
proof (cases "find (\<lambda>r. code r = c' \<and> used_by r = 0) tbl")
  case None
  with assms show ?thesis by (simp add: delete_point_code_def)
next
  case (Some r)
  then have r: "r \<in> set tbl" "code r = c'" "used_by r = 0"
    by (auto simp: find_Some_iff)
  with assms have "c' \<noteq> c" by (auto simp: spent_def)
  with assms Some show ?thesis
    by (simp add: delete_point_code_def spent_update_other)
qed

lemma executemany_rows:
  "executemany codes tbl = Inr tbl' \<Longrightarrow>
     tbl' = tbl @ map (\<lambda>(c, p). \<lparr>code = c, point = p, used_by = 0\<rparr>) codes \<and>
     distinct (map fst codes) \<and> set (map fst codes) \<inter> set (map code tbl) = {}"
proof (induction codes tbl arbitrary: tbl' rule: executemany.induct)
  case (1 tbl)
  then show ?case by simp
next
  case (2 c p rest tbl)
  from "2.prems" have fresh: "c \<notin> code ` set tbl"
    by (simp split: if_splits)
  with "2.prems" have "executemany rest (tbl @ [\<lparr>code = c, point = p, used_by = 0\<rparr>]) = Inr tbl'"
    by simp
  from "2.IH" [OF fresh this] fresh show ?case by auto
qed

lemma executemany_fresh:
  "distinct (map fst codes) \<Longrightarrow> set (map fst codes) \<inter> set (map code tbl) = {} \<Longrightarrow>
     executemany codes tbl = Inr (tbl @ map (\<lambda>(c, p). \<lparr>code = c, point = p, used_by = 0\<rparr>) codes)"
proof (induction codes tbl rule: executemany.induct)
  case (1 tbl)
  then show ?case by simp
next
  case (2 c p rest tbl)
  from "2.prems" have fresh: "c \<notin> code ` set tbl" by auto
  from "2.prems" have "distinct (map fst rest)"
    and "set (map fst rest) \<inter> set (map code (tbl @ [\<lparr>code = c, point = p, used_by = 0\<rparr>])) = {}"
    by auto
  from "2.IH" [OF fresh this] fresh show ?case by simp
qed

lemma executemany_collision:
  "\<not> (distinct (map fst codes) \<and> set (map fst codes) \<inter> set (map code tbl) = {}) \<Longrightarrow>
     executemany codes tbl = Inl IntegrityError"
proof (cases "executemany codes tbl")
  case (Inl e)
  then show ?thesis by (cases e) simp
next
  case (Inr tbl')
  assume "\<not> (distinct (map fst codes) \<and> set (map fst codes) \<inter> set (map code tbl) = {})"
  with executemany_rows [OF Inr] show ?thesis by blast
qed

lemma spent_insert_batch:
  assumes "spent c tbl"
  shows "spent c (insert_batch codes tbl)"
proof (cases "executemany codes tbl")
  case (Inl e)
  with assms show ?thesis by (simp add: insert_batch_def)
next
  case (Inr tbl')
  from executemany_rows [OF Inr]
  have tbl': "tbl' = tbl @ map (\<lambda>(c, p). \<lparr>code = c, point = p, used_by = 0\<rparr>) codes"
    and disj: "set (map fst codes) \<inter> set (map code tbl) = {}" by simp_all
  from assms have c: "c \<in> set (map code tbl)" by (simp add: spent_iff)
  with disj have new: "c \<notin> fst ` set codes" by auto
  have "spent c tbl'"
    unfolding spent_iff
  proof (intro conjI ballI impI)
    from c show "c \<in> set (map code tbl')" by (simp add: tbl')
  next
    fix r assume r: "r \<in> set tbl'" "code r = c"
    have "r \<in> set tbl"
    proof (rule ccontr)
      assume "r \<notin> set tbl"
      with r(1) obtain c' p where "(c', p) \<in> set codes" "r = \<lparr>code = c', point = p, used_by = 0\<rparr>"
        by (auto simp: tbl')
      with r(2) new show False by force
    qed
    with assms r(2) show "used_by r > 0 \<or> used_by r = - 1" by (simp add: spent_def)
  qed
  with Inr show ?thesis by (simp add: insert_batch_def)
qed

lemma spent_apply_op: "spent c tbl \<Longrightarrow> spent c (apply_op op tbl)"
  by (cases op) (simp_all add: spent_use_point_code spent_delete_point_code spent_insert_batch)

lemma spent_run_ops: "spent c tbl \<Longrightarrow> spent c (run_ops ops tbl)"
  by (induction ops arbitrary: tbl) (simp_all add: spent_apply_op)


lemma found_row:
  "find (\<lambda>r. code r = c) tbl = Some r \<Longrightarrow> r \<in> set tbl \<and> code r = c"
  by (auto simp: find_Some_iff)

lemma update_used_by_unchanged:
  assumes "distinct (map code tbl)" "find (\<lambda>r. code r = c) tbl = Some r"
  shows "update_used_by (used_by r) c tbl = tbl"
proof -
  from found_row [OF assms(2)] have r: "r \<in> set tbl" "code r = c" by simp_all
  from assms(1) have inj: "inj_on code (set tbl)" by (simp only: distinct_map)
  have same: "(if code x = c then x\<lparr>used_by := used_by r\<rparr> else x) = x" if x: "x \<in> set tbl" for x
  proof (cases "code x = c")
    case True
    with r(2) have "code x = code r" by simp
    from inj this x r(1) have "x = r" by (rule inj_onD)
    then show ?thesis by simp
  next
    case False
    then show ?thesis by simp
  qed
  show ?thesis
    unfolding update_used_by_def by (rule map_idI) (rule same)
qed

text \<open>
  Claim C1, as amended. \<^verbatim>\<open>use_point_code(code, group)\<close> on a table: when no row has
  the code it returns no value and the error \<^verbatim>\<open>not exists\<close>, and the table is
  unchanged; when the row of the code has \<^verbatim>\<open>used_by > 0\<close> or \<^verbatim>\<open>used_by = -1\<close> it
  returns no value and the error \<^verbatim>\<open>used\<close>, and the table is unchanged; when the row has
  \<^verbatim>\<open>used_by = 0\<close> it returns the point value of the row and sets \<^verbatim>\<open>used_by\<close> to the
  group. If moreover the group is positive or is \<open>-1\<close>, then after any later sequence of
  redemptions, deletions and insertions every redemption of the code fails with
  \<^verbatim>\<open>used\<close> and changes nothing.
\<close>

theorem use_point_code_cases:
  "(find (\<lambda>r. code r = c) tbl = None \<longrightarrow>
      use_point_code c g tbl = ((None, Some ''not exists''), tbl)) \<and>
   (\<forall>r. find (\<lambda>r. code r = c) tbl = Some r \<longrightarrow>
      (used_by r > 0 \<or> used_by r = - 1 \<longrightarrow>
         use_point_code c g tbl = ((None, Some ''used''), tbl)) \<and>
      (used_by r = 0 \<longrightarrow>
         use_point_code c g tbl = ((Some (point r), None), update_used_by g c tbl) \<and>
         find (\<lambda>r. code r = c) (update_used_by g c tbl) = Some (r\<lparr>used_by := g\<rparr>) \<and>
         (g > 0 \<or> g = - 1 \<longrightarrow>
            (\<forall>ops g'. use_point_code c g' (run_ops ops (update_used_by g c tbl)) =
               ((None, Some ''used''), run_ops ops (update_used_by g c tbl))))))"
proof (intro conjI allI impI)
  assume "find (\<lambda>r. code r = c) tbl = None"
  then show "use_point_code c g tbl = ((None, Some ''not exists''), tbl)"
    by (simp add: use_point_code_def)
next
  fix r assume "find (\<lambda>r. code r = c) tbl = Some r" "used_by r > 0 \<or> used_by r = - 1"
  then show "use_point_code c g tbl = ((None, Some ''used''), tbl)"
    by (simp add: use_point_code_def)
next
  fix r assume "find (\<lambda>r. code r = c) tbl = Some r" "used_by r = 0"
  then show "use_point_code c g tbl = ((Some (point r), None), update_used_by g c tbl)"
    by (simp add: use_point_code_def)
next
  fix r assume "find (\<lambda>r. code r = c) tbl = Some r"
  then show "find (\<lambda>r. code r = c) (update_used_by g c tbl) = Some (r\<lparr>used_by := g\<rparr>)"
    by (simp add: find_update_used_by)
next
  fix r ops g'
  assume f: "find (\<lambda>r. code r = c) tbl = Some r" and g: "g > 0 \<or> g = - 1"
  from found_row [OF f] have "c \<in> set (map code tbl)" by force
  then have "spent c (update_used_by g c tbl)" using g by (rule spent_update_same)
  then have "spent c (run_ops ops (update_used_by g c tbl))" by (rule spent_run_ops)
  then show "use_point_code c g' (run_ops ops (update_used_by g c tbl)) =
     ((None, Some ''used''), run_ops ops (update_used_by g c tbl))"
    by (rule use_point_code_spent)
qed


text \<open>
  The three cases at a table of two codes, and a spent code that stays spent through a
  deletion and an insertion.
\<close>

theorem use_point_code_cases_witness:
  "use_point_code ''zz'' 2
     [\<lparr>code = ''a'', point = 5, used_by = 0\<rparr>, \<lparr>code = ''b'', point = 7, used_by = 3\<rparr>] =
     ((None, Some ''not exists''),
      [\<lparr>code = ''a'', point = 5, used_by = 0\<rparr>, \<lparr>code = ''b'', point = 7, used_by = 3\<rparr>]) \<and>
   use_point_code ''b'' 2
     [\<lparr>code = ''a'', point = 5, used_by = 0\<rparr>, \<lparr>code = ''b'', point = 7, used_by = 3\<rparr>] =
     ((None, Some ''used''),
      [\<lparr>code = ''a'', point = 5, used_by = 0\<rparr>, \<lparr>code = ''b'', point = 7, used_by = 3\<rparr>]) \<and>
   use_point_code ''a'' 2
     [\<lparr>code = ''a'', point = 5, used_by = 0\<rparr>, \<lparr>code = ''b'', point = 7, used_by = 3\<rparr>] =
     ((Some 5, None),
      [\<lparr>code = ''a'', point = 5, used_by = 2\<rparr>, \<lparr>code = ''b'', point = 7, used_by = 3\<rparr>]) \<and>
   use_point_code ''a'' 4
     (run_ops [Delete ''a'', Insert [(''c'', 1)]]
        [\<lparr>code = ''a'', point = 5, used_by = 2\<rparr>, \<lparr>code = ''b'', point = 7, used_by = 3\<rparr>]) =
     ((None, Some ''used''),
      [\<lparr>code = ''a'', point = 5, used_by = 2\<rparr>, \<lparr>code = ''b'', point = 7, used_by = 3\<rparr>,
       \<lparr>code = ''c'', point = 1, used_by = 0\<rparr>])"
proof -
  let ?tbl = "[\<lparr>code = ''a'', point = 5, used_by = 0\<rparr>, \<lparr>code = ''b'', point = 7, used_by = 3\<rparr>]"
  have absent: "find (\<lambda>r. code r = ''zz'') ?tbl = None" by simp
  have used: "find (\<lambda>r. code r = ''b'') ?tbl = Some \<lparr>code = ''b'', point = 7, used_by = 3\<rparr>" by simp
  have fresh: "find (\<lambda>r. code r = ''a'') ?tbl = Some \<lparr>code = ''a'', point = 5, used_by = 0\<rparr>" by simp
  have upd: "update_used_by 2 ''a'' ?tbl =
      [\<lparr>code = ''a'', point = 5, used_by = 2\<rparr>, \<lparr>code = ''b'', point = 7, used_by = 3\<rparr>]"
    by (simp add: update_used_by_def)
  have later: "run_ops [Delete ''a'', Insert [(''c'', 1)]]
        [\<lparr>code = ''a'', point = 5, used_by = 2\<rparr>, \<lparr>code = ''b'', point = 7, used_by = 3\<rparr>] =
      [\<lparr>code = ''a'', point = 5, used_by = 2\<rparr>, \<lparr>code = ''b'', point = 7, used_by = 3\<rparr>,
       \<lparr>code = ''c'', point = 1, used_by = 0\<rparr>]"
    by (simp add: delete_point_code_def insert_batch_def)
  from use_point_code_cases [of "''zz''" ?tbl 2] absent
  have 1: "use_point_code ''zz'' 2 ?tbl = ((None, Some ''not exists''), ?tbl)" by blast
  from use_point_code_cases [of "''b''" ?tbl 2] used
  have 2: "use_point_code ''b'' 2 ?tbl = ((None, Some ''used''), ?tbl)" by simp
  from use_point_code_cases [of "''a''" ?tbl 2] fresh
  have 3: "use_point_code ''a'' 2 ?tbl = ((Some 5, None), update_used_by 2 ''a'' ?tbl)"
    and 4: "\<forall>ops g'. use_point_code ''a'' g' (run_ops ops (update_used_by 2 ''a'' ?tbl)) =
               ((None, Some ''used''), run_ops ops (update_used_by 2 ''a'' ?tbl))"
    by simp_all
  from 4 have 5: "use_point_code ''a'' 4 (run_ops [Delete ''a'', Insert [(''c'', 1)]] (update_used_by 2 ''a'' ?tbl)) =
       ((None, Some ''used''), run_ops [Delete ''a'', Insert [(''c'', 1)]] (update_used_by 2 ''a'' ?tbl))"
    by blast
  from 1 2 3 5 show ?thesis unfolding upd later by simp
qed

text \<open>
  Without the condition on the group the last part of claim C1 fails: a code redeemed
  for group 0 is redeemed again by group 3.
\<close>

theorem use_point_code_group_zero_counterexample:
  "use_point_code ''a'' 0 [\<lparr>code = ''a'', point = 5, used_by = 0\<rparr>] =
     ((Some 5, None), [\<lparr>code = ''a'', point = 5, used_by = 0\<rparr>]) \<and>
   use_point_code ''a'' 3 (snd (use_point_code ''a'' 0 [\<lparr>code = ''a'', point = 5, used_by = 0\<rparr>])) =
     ((Some 5, None), [\<lparr>code = ''a'', point = 5, used_by = 3\<rparr>])"
  by (simp add: use_point_code_def update_used_by_def)

lemma delete_lookup_None:
  "find (\<lambda>r. code r = c \<and> used_by r = 0) tbl = None \<longleftrightarrow>
     \<not> (\<exists>r \<in> set tbl. code r = c \<and> used_by r = 0)"
  by (simp add: find_None_iff) blast

text \<open>
  Claim C5. \<^verbatim>\<open>delete_point_code(code)\<close> succeeds exactly when some row has the code and
  \<^verbatim>\<open>used_by = 0\<close>: it then returns no error and leaves every row of the code with
  \<^verbatim>\<open>used_by = -1\<close>, and after any later sequence of redemptions, deletions and
  insertions every \<^verbatim>\<open>use_point_code\<close> on the code fails with \<^verbatim>\<open>used\<close> and changes
  nothing. When no such row exists (the code is absent, redeemed or deleted) it returns
  the error \<^verbatim>\<open>used\<close> and leaves the table unchanged.
\<close>

theorem delete_point_code_cases:
  "((\<exists>r \<in> set tbl. code r = c \<and> used_by r = 0) \<longrightarrow>
      delete_point_code c tbl = ((None, None), update_used_by (- 1) c tbl) \<and>
      (\<forall>r \<in> set (update_used_by (- 1) c tbl). code r = c \<longrightarrow> used_by r = - 1) \<and>
      (\<forall>ops g. use_point_code c g (run_ops ops (update_used_by (- 1) c tbl)) =
         ((None, Some ''used''), run_ops ops (update_used_by (- 1) c tbl)))) \<and>
   (\<not> (\<exists>r \<in> set tbl. code r = c \<and> used_by r = 0) \<longrightarrow>
      delete_point_code c tbl = ((None, Some ''used''), tbl))"
proof (intro conjI impI allI ballI)
  assume "\<exists>r \<in> set tbl. code r = c \<and> used_by r = 0"
  then have "find (\<lambda>r. code r = c \<and> used_by r = 0) tbl \<noteq> None"
    unfolding delete_lookup_None by simp
  then show "delete_point_code c tbl = ((None, None), update_used_by (- 1) c tbl)"
    by (auto simp: delete_point_code_def)
next
  fix r assume "r \<in> set (update_used_by (- 1) c tbl)" "code r = c"
  then show "used_by r = - 1" by (rule used_by_update_same)
next
  fix ops g
  assume "\<exists>r \<in> set tbl. code r = c \<and> used_by r = 0"
  then have "c \<in> set (map code tbl)" by force
  then have "spent c (update_used_by (- 1) c tbl)" by (rule spent_update_same) simp
  then have "spent c (run_ops ops (update_used_by (- 1) c tbl))" by (rule spent_run_ops)
  then show "use_point_code c g (run_ops ops (update_used_by (- 1) c tbl)) =
     ((None, Some ''used''), run_ops ops (update_used_by (- 1) c tbl))"
    by (rule use_point_code_spent)
next
  assume "\<not> (\<exists>r \<in> set tbl. code r = c \<and> used_by r = 0)"
  then have "find (\<lambda>r. code r = c \<and> used_by r = 0) tbl = None"
    unfolding delete_lookup_None by simp
  then show "delete_point_code c tbl = ((None, Some ''used''), tbl)"
    by (simp add: delete_point_code_def)
qed

text \<open>
  A deletion that succeeds and then blocks redemption through later operations, a
  deletion of a redeemed code and a deletion of an absent code.
\<close>

theorem delete_point_code_cases_witness:
  "delete_point_code ''a''
     [\<lparr>code = ''a'', point = 5, used_by = 0\<rparr>, \<lparr>code = ''b'', point = 7, used_by = 3\<rparr>] =
     ((None, None),
      [\<lparr>code = ''a'', point = 5, used_by = - 1\<rparr>, \<lparr>code = ''b'', point = 7, used_by = 3\<rparr>]) \<and>
   use_point_code ''a'' 4
     (run_ops [Redeem ''b'' 1, Insert [(''c'', 1)], Delete ''a'']
        [\<lparr>code = ''a'', point = 5, used_by = - 1\<rparr>, \<lparr>code = ''b'', point = 7, used_by = 3\<rparr>]) =
     ((None, Some ''used''),
      [\<lparr>code = ''a'', point = 5, used_by = - 1\<rparr>, \<lparr>code = ''b'', point = 7, used_by = 3\<rparr>,
       \<lparr>code = ''c'', point = 1, used_by = 0\<rparr>]) \<and>
   delete_point_code ''b''
     [\<lparr>code = ''a'', point = 5, used_by = 0\<rparr>, \<lparr>code = ''b'', point = 7, used_by = 3\<rparr>] =
     ((None, Some ''used''),
      [\<lparr>code = ''a'', point = 5, used_by = 0\<rparr>, \<lparr>code = ''b'', point = 7, used_by = 3\<rparr>]) \<and>
   delete_point_code ''zz''
     [\<lparr>code = ''a'', point = 5, used_by = 0\<rparr>, \<lparr>code = ''b'', point = 7, used_by = 3\<rparr>] =
     ((None, Some ''used''),
      [\<lparr>code = ''a'', point = 5, used_by = 0\<rparr>, \<lparr>code = ''b'', point = 7, used_by = 3\<rparr>])"
proof -
  let ?tbl = "[\<lparr>code = ''a'', point = 5, used_by = 0\<rparr>, \<lparr>code = ''b'', point = 7, used_by = 3\<rparr>]"
  let ?ops = "[Redeem ''b'' 1, Insert [(''c'', 1)], Delete ''a'']"
  have a: "\<exists>r \<in> set ?tbl. code r = ''a'' \<and> used_by r = 0" by simp
  have b: "\<not> (\<exists>r \<in> set ?tbl. code r = ''b'' \<and> used_by r = 0)" by simp
  have z: "\<not> (\<exists>r \<in> set ?tbl. code r = ''zz'' \<and> used_by r = 0)" by simp
  have upd: "update_used_by (- 1) ''a'' ?tbl =
      [\<lparr>code = ''a'', point = 5, used_by = - 1\<rparr>, \<lparr>code = ''b'', point = 7, used_by = 3\<rparr>]"
    by (simp add: update_used_by_def)
  have later: "run_ops ?ops
        [\<lparr>code = ''a'', point = 5, used_by = - 1\<rparr>, \<lparr>code = ''b'', point = 7, used_by = 3\<rparr>] =
      [\<lparr>code = ''a'', point = 5, used_by = - 1\<rparr>, \<lparr>code = ''b'', point = 7, used_by = 3\<rparr>,
       \<lparr>code = ''c'', point = 1, used_by = 0\<rparr>]"
    by (simp add: use_point_code_def delete_point_code_def insert_batch_def)
  from delete_point_code_cases [of ?tbl "''a''"] a
  have 1: "delete_point_code ''a'' ?tbl = ((None, None), update_used_by (- 1) ''a'' ?tbl)"
    and 2: "\<forall>ops g. use_point_code ''a'' g (run_ops ops (update_used_by (- 1) ''a'' ?tbl)) =
         ((None, Some ''used''), run_ops ops (update_used_by (- 1) ''a'' ?tbl))"
    by blast+
  from 2 have 3: "use_point_code ''a'' 4 (run_ops ?ops (update_used_by (- 1) ''a'' ?tbl)) =
         ((None, Some ''used''), run_ops ?ops (update_used_by (- 1) ''a'' ?tbl))"
    by blast
  from delete_point_code_cases [of ?tbl "''b''"] b
  have 4: "delete_point_code ''b'' ?tbl = ((None, Some ''used''), ?tbl)" by blast
  from delete_point_code_cases [of ?tbl "''zz''"] z
  have 5: "delete_point_code ''zz'' ?tbl = ((None, Some ''used''), ?tbl)" by blast
  from 1 3 4 5 show ?thesis unfolding upd later by simp
qed

lemma redeem_times_spent:
  "spent c tbl \<Longrightarrow> redeem_times n c g tbl = (replicate n (None, Some ''used''), tbl)"
  by (induction n) (simp_all add: use_point_code_spent)

lemma redeem_times_zero:
  assumes "find (\<lambda>r. code r = c) tbl = Some r" "used_by r = 0"
  shows "fst (redeem_times n c 0 tbl) = replicate n (Some (point r), None) \<and>
         find (\<lambda>r. code r = c) (snd (redeem_times n c 0 tbl)) = Some r \<and>
         (distinct (map code tbl) \<longrightarrow> snd (redeem_times n c 0 tbl) = tbl)"
  using assms
proof (induction n arbitrary: tbl)
  case 0
  then show ?case by simp
next
  case (Suc n)
  from Suc.prems have use: "use_point_code c 0 tbl = ((Some (point r), None), update_used_by 0 c tbl)"
    by (simp add: use_point_code_def)
  from Suc.prems have f: "find (\<lambda>r. code r = c) (update_used_by 0 c tbl) = Some r"
    by (simp add: find_update_used_by)
  have d: "update_used_by 0 c tbl = tbl" if "distinct (map code tbl)"
    using update_used_by_unchanged [OF that Suc.prems(1)] Suc.prems(2) by simp
  from Suc.IH [OF f Suc.prems(2)] use d show ?case
    by (auto simp: split_beta codes_update_used_by)
qed

lemma redeem_times_open:
  assumes "find (\<lambda>r. code r = c) tbl = Some r"
    and "\<not> (used_by r > 0 \<or> used_by r = - 1)"
    and "\<not> (g > 0 \<or> g = - 1)"
  shows "fst (redeem_times n c g tbl) = replicate n (Some (point r), None)"
  using assms(1,2)
proof (induction n arbitrary: tbl r)
  case 0
  then show ?case by simp
next
  case (Suc n)
  from Suc.prems have use: "use_point_code c g tbl = ((Some (point r), None), update_used_by g c tbl)"
    by (simp add: use_point_code_def)
  from Suc.prems(1) have f: "find (\<lambda>r. code r = c) (update_used_by g c tbl) = Some (r\<lparr>used_by := g\<rparr>)"
    by (simp add: find_update_used_by)
  from assms(3) have still: "\<not> (used_by (r\<lparr>used_by := g\<rparr>) > 0 \<or> used_by (r\<lparr>used_by := g\<rparr>) = - 1)"
    by simp
  from Suc.IH [OF f still] use show ?case
    by (simp add: split_beta)
qed

text \<open>
  Claim C9, as amended. On a code whose row has \<^verbatim>\<open>used_by = 0\<close>, each of \<open>n\<close>
  successive calls \<^verbatim>\<open>use_point_code(code, 0)\<close> returns the point value of the code, for
  every \<open>n\<close>, and the row of the code still has \<^verbatim>\<open>used_by = 0\<close> afterwards (the whole
  table is unchanged when its codes are distinct). A code is consumed exactly once when
  the group is positive or is \<open>-1\<close>: the first call returns the point value and each
  of the following ones fails with \<^verbatim>\<open>used\<close>. With any other group (0 or below \<open>-1\<close>)
  every call returns the point value.
\<close>

theorem redeem_exactly_once_groups:
  "find (\<lambda>r. code r = c) tbl = Some r \<Longrightarrow> used_by r = 0 \<Longrightarrow>
     fst (redeem_times n c 0 tbl) = replicate n (Some (point r), None) \<and>
     find (\<lambda>r. code r = c) (snd (redeem_times n c 0 tbl)) = Some r \<and>
     (distinct (map code tbl) \<longrightarrow> snd (redeem_times n c 0 tbl) = tbl) \<and>
     (g > 0 \<or> g = - 1 \<longrightarrow>
        fst (redeem_times (Suc n) c g tbl) = (Some (point r), None) # replicate n (None, Some ''used'')) \<and>
     (\<not> (g > 0 \<or> g = - 1) \<longrightarrow>
        fst (redeem_times (Suc n) c g tbl) = replicate (Suc n) (Some (point r), None))"
proof -
  assume f: "find (\<lambda>r. code r = c) tbl = Some r" and u: "used_by r = 0"
  have once: "fst (redeem_times (Suc n) c g tbl) = (Some (point r), None) # replicate n (None, Some ''used'')"
    if g: "g > 0 \<or> g = - 1"
  proof -
    from f u have use: "use_point_code c g tbl = ((Some (point r), None), update_used_by g c tbl)"
      by (simp add: use_point_code_def)
    from found_row [OF f] have "c \<in> set (map code tbl)" by force
    then have "spent c (update_used_by g c tbl)" using g by (rule spent_update_same)
    then show ?thesis using use by (simp add: redeem_times_spent)
  qed
  have many: "fst (redeem_times (Suc n) c g tbl) = replicate (Suc n) (Some (point r), None)"
    if g: "\<not> (g > 0 \<or> g = - 1)"
  proof -
    from u have "\<not> (used_by r > 0 \<or> used_by r = - 1)" by simp
    from redeem_times_open [OF f this g] show ?thesis .
  qed
  from redeem_times_zero [OF f u, of n] once many show ?thesis by blast
qed

text \<open>
  Claim C9 as it is written says that a code is consumed exactly once only for a
  positive group. With the group \<open>-1\<close>, which is not positive, the first of three
  calls returns the point value and the next two fail with \<^verbatim>\<open>used\<close>.
\<close>

theorem redeem_group_minus_one_counterexample:
  "fst (redeem_times 3 ''a'' (- 1) [\<lparr>code = ''a'', point = 5, used_by = 0\<rparr>]) =
     [(Some 5, None), (None, Some ''used''), (None, Some ''used'')] \<and>
   snd (redeem_times 3 ''a'' (- 1) [\<lparr>code = ''a'', point = 5, used_by = 0\<rparr>]) =
     [\<lparr>code = ''a'', point = 5, used_by = - 1\<rparr>]"
  by (simp add: numeral_3_eq_3 use_point_code_def update_used_by_def)

text \<open>
  Three redemptions for group 0 all succeed and leave the table as it was; three for
  group 4 and three for group \<open>-1\<close> succeed once; three for group \<open>-5\<close> all succeed.
\<close>

theorem redeem_exactly_once_groups_witness:
  "fst (redeem_times 3 ''a'' 0
     [\<lparr>code = ''a'', point = 5, used_by = 0\<rparr>, \<lparr>code = ''b'', point = 7, used_by = 3\<rparr>]) =
     [(Some 5, None), (Some 5, None), (Some 5, None)] \<and>
   snd (redeem_times 3 ''a'' 0
     [\<lparr>code = ''a'', point = 5, used_by = 0\<rparr>, \<lparr>code = ''b'', point = 7, used_by = 3\<rparr>]) =
     [\<lparr>code = ''a'', point = 5, used_by = 0\<rparr>, \<lparr>code = ''b'', point = 7, used_by = 3\<rparr>] \<and>
   fst (redeem_times 3 ''a'' 4
     [\<lparr>code = ''a'', point = 5, used_by = 0\<rparr>, \<lparr>code = ''b'', point = 7, used_by = 3\<rparr>]) =
     [(Some 5, None), (None, Some ''used''), (None, Some ''used'')] \<and>
   fst (redeem_times 3 ''a'' (- 1)
     [\<lparr>code = ''a'', point = 5, used_by = 0\<rparr>, \<lparr>code = ''b'', point = 7, used_by = 3\<rparr>]) =
     [(Some 5, None), (None, Some ''used''), (None, Some ''used'')] \<and>
   fst (redeem_times 3 ''a'' (- 5)
     [\<lparr>code = ''a'', point = 5, used_by = 0\<rparr>, \<lparr>code = ''b'', point = 7, used_by = 3\<rparr>]) =
     [(Some 5, None), (Some 5, None), (Some 5, None)]"
proof -
  let ?tbl = "[\<lparr>code = ''a'', point = 5, used_by = 0\<rparr>, \<lparr>code = ''b'', point = 7, used_by = 3\<rparr>]"
  have f: "find (\<lambda>r. code r = ''a'') ?tbl = Some \<lparr>code = ''a'', point = 5, used_by = 0\<rparr>" by simp
  have u: "used_by \<lparr>code = ''a'', point = 5, used_by = 0\<rparr> = 0" by simp
  have d: "distinct (map code ?tbl)" by simp
  from redeem_exactly_once_groups [OF f u, of 3 4] d
  have "fst (redeem_times 3 ''a'' 0 ?tbl) = replicate 3 (Some 5, None)"
    and "snd (redeem_times 3 ''a'' 0 ?tbl) = ?tbl"
    by simp_all
  moreover from redeem_exactly_once_groups [OF f u, of 2 4]
  have "fst (redeem_times (Suc 2) ''a'' 4 ?tbl) = (Some 5, None) # replicate 2 (None, Some ''used'')"
    by simp
  moreover from redeem_exactly_once_groups [OF f u, of 2 "- 1"]
  have "fst (redeem_times (Suc 2) ''a'' (- 1) ?tbl) = (Some 5, None) # replicate 2 (None, Some ''used'')"
    by simp
  moreover from redeem_exactly_once_groups [OF f u, of 2 "- 5"]
  have "fst (redeem_times (Suc 2) ''a'' (- 5) ?tbl) = replicate (Suc 2) (Some 5, None)"
    by simp
  ultimately show ?thesis by (simp add: numeral_3_eq_3 numeral_2_eq_2)
qed

section \<open>Properties of issuance\<close>

lemma attempt_codes:
  "map fst (map (\<lambda>k. (gen_code (i + k), pt)) [0..<n]) = batch gen_code i n"
  by (simp add: batch_def comp_def)

lemma attempt_rows:
  "map (\<lambda>(c, p). \<lparr>code = c, point = p, used_by = 0\<rparr>) (map (\<lambda>k. (gen_code (i + k), pt)) [0..<n]) =
     issued_rows pt (batch gen_code i n)"
  by (simp add: batch_def issued_rows_def comp_def)

lemma gen_point_code_fresh:
  assumes "batch_fresh (batch gen_code i (nat amount)) tbl"
  shows "gen_point_code gen_code i pt amount tbl =
     Some ((Some (batch gen_code i (nat amount)), None),
           tbl @ issued_rows pt (batch gen_code i (nat amount)), i + nat amount)"
proof -
  let ?codes = "map (\<lambda>k. (gen_code (i + k), pt)) [0..<nat amount]"
  from assms have "distinct (map fst ?codes)" "set (map fst ?codes) \<inter> set (map code tbl) = {}"
    unfolding attempt_codes batch_fresh_def by simp_all
  then have "executemany ?codes tbl =
      Inr (tbl @ map (\<lambda>(c, p). \<lparr>code = c, point = p, used_by = 0\<rparr>) ?codes)"
    by (rule executemany_fresh)
  then show ?thesis
    unfolding attempt_rows
    by (subst gen_point_code.simps) (simp add: attempt_codes Let_def del: map_map)
qed

lemma gen_point_code_collision:
  assumes "\<not> batch_fresh (batch gen_code i (nat amount)) tbl"
  shows "gen_point_code gen_code i pt amount tbl =
     gen_point_code gen_code (i + nat amount) pt amount tbl"
proof -
  let ?codes = "map (\<lambda>k. (gen_code (i + k), pt)) [0..<nat amount]"
  from assms have "\<not> (distinct (map fst ?codes) \<and> set (map fst ?codes) \<inter> set (map code tbl) = {})"
    unfolding attempt_codes batch_fresh_def by simp
  then have "executemany ?codes tbl = Inl IntegrityError"
    by (rule executemany_collision)
  then show ?thesis
    by (subst gen_point_code.simps) (simp add: Let_def del: map_map)
qed

lemma length_batch: "length (batch gen_code i n) = n"
  by (simp add: batch_def)

lemma gen_point_code_first_fresh:
  assumes "batch_fresh (batch gen_code (i + k * nat amount) (nat amount)) tbl"
    and "\<forall>l < k. \<not> batch_fresh (batch gen_code (i + l * nat amount) (nat amount)) tbl"
  shows "gen_point_code gen_code i pt amount tbl =
     Some ((Some (batch gen_code (i + k * nat amount) (nat amount)), None),
           tbl @ issued_rows pt (batch gen_code (i + k * nat amount) (nat amount)),
           i + Suc k * nat amount)"
  using assms
proof (induction k arbitrary: i)
  case 0
  then show ?case by (simp add: gen_point_code_fresh)
next
  case (Suc k)
  from Suc.prems(2) have "\<not> batch_fresh (batch gen_code (i + 0 * nat amount) (nat amount)) tbl"
    by blast
  then have step: "gen_point_code gen_code i pt amount tbl =
      gen_point_code gen_code (i + nat amount) pt amount tbl"
    by (simp add: gen_point_code_collision)
  have shift: "i + nat amount + l * nat amount = i + Suc l * nat amount" for l
    by simp
  from Suc.prems(1) have a: "batch_fresh (batch gen_code (i + nat amount + k * nat amount) (nat amount)) tbl"
    unfolding shift .
  have b: "\<forall>l < k. \<not> batch_fresh (batch gen_code (i + nat amount + l * nat amount) (nat amount)) tbl"
    unfolding shift using Suc.prems(2) by auto
  from Suc.IH [OF a b] show ?case unfolding step shift .
qed

text \<open>
  Claim C2. If the generator hands a batch that passes the primary key to some pass
  of the loop (pass \<open>k\<close>, counted from 0), then \<^verbatim>\<open>gen_point_code(point, amount)\<close> returns:
  its result is the list of the codes of the first such pass \<open>m\<close> together with no
  error, after every earlier pass collided. It returns \<open>amount\<close> codes, distinct from
  one another and from every code the table held; the table it leaves is the old table
  followed by one row per returned code, each with the given point value and
  \<^verbatim>\<open>used_by = 0\<close>, so nothing of a pass that collided persists.
\<close>

theorem gen_point_code_issues:
  assumes "batch_fresh (batch gen_code (i + k * nat amount) (nat amount)) tbl"
  shows "\<exists>codes m. m \<le> k \<and>
     gen_point_code gen_code i pt amount tbl =
       Some ((Some codes, None), tbl @ issued_rows pt codes, i + Suc m * nat amount) \<and>
     codes = batch gen_code (i + m * nat amount) (nat amount) \<and>
     (\<forall>l < m. \<not> batch_fresh (batch gen_code (i + l * nat amount) (nat amount)) tbl) \<and>
     length codes = nat amount \<and> distinct codes \<and> set codes \<inter> set (map code tbl) = {} \<and>
     (\<forall>r \<in> set (issued_rows pt codes). point r = pt \<and> used_by r = 0) \<and>
     map code (issued_rows pt codes) = codes"
proof -
  define m where "m = (LEAST m. batch_fresh (batch gen_code (i + m * nat amount) (nat amount)) tbl)"
  have fresh: "batch_fresh (batch gen_code (i + m * nat amount) (nat amount)) tbl"
    unfolding m_def using assms by (rule LeastI)
  have le: "m \<le> k" unfolding m_def using assms by (rule Least_le)
  have first: "\<forall>l < m. \<not> batch_fresh (batch gen_code (i + l * nat amount) (nat amount)) tbl"
    unfolding m_def using not_less_Least by blast
  let ?codes = "batch gen_code (i + m * nat amount) (nat amount)"
  from gen_point_code_first_fresh [OF fresh first]
  have "gen_point_code gen_code i pt amount tbl =
       Some ((Some ?codes, None), tbl @ issued_rows pt ?codes, i + Suc m * nat amount)" .
  moreover from fresh have "distinct ?codes" "set ?codes \<inter> set (map code tbl) = {}"
    by (simp_all add: batch_fresh_def)
  moreover have "\<forall>r \<in> set (issued_rows pt ?codes). point r = pt \<and> used_by r = 0"
    by (auto simp: issued_rows_def)
  moreover have "map code (issued_rows pt ?codes) = ?codes"
    by (simp add: issued_rows_def comp_def)
  ultimately show ?thesis using le first length_batch by blast
qed

lemma gen_point_code_only_fresh:
  assumes "gen_point_code gen_code i pt amount tbl = Some res"
  shows "\<exists>k. batch_fresh (batch gen_code (i + k * nat amount) (nat amount)) tbl"
proof (rule gen_point_code.raw_induct
    [where P = "\<lambda>gen_code i pt amount tbl res.
       \<exists>k. batch_fresh (batch gen_code (i + k * nat amount) (nat amount)) tbl", OF _ assms])
  fix f :: "(nat \<Rightarrow> string) \<Rightarrow> nat \<Rightarrow> int \<Rightarrow> int \<Rightarrow> point_code
     \<Rightarrow> ((string list option \<times> Error) \<times> point_code \<times> nat) option"
  fix gen_code i pt amount tbl res
  assume 1: "\<And>g j p a t y. f g j p a t = Some y \<Longrightarrow>
      \<exists>k. batch_fresh (batch g (j + k * nat a) (nat a)) t"
    "(let codes = map (\<lambda>k. (gen_code (i + k), pt)) [0..<nat amount]
      in case executemany codes tbl of
         Inl IntegrityError \<Rightarrow> f gen_code (i + nat amount) pt amount tbl
         | Inr tbl' \<Rightarrow> Some ((Some (map fst codes), None), tbl', i + nat amount)) = Some res"
  show "\<exists>k. batch_fresh (batch gen_code (i + k * nat amount) (nat amount)) tbl"
  proof (cases "batch_fresh (batch gen_code i (nat amount)) tbl")
    case True
    then have "batch_fresh (batch gen_code (i + 0 * nat amount) (nat amount)) tbl" by simp
    then show ?thesis by blast
  next
    case False
    let ?codes = "map (\<lambda>k. (gen_code (i + k), pt)) [0..<nat amount]"
    from False have "\<not> (distinct (map fst ?codes) \<and> set (map fst ?codes) \<inter> set (map code tbl) = {})"
      unfolding attempt_codes batch_fresh_def by simp
    then have "executemany ?codes tbl = Inl IntegrityError"
      by (rule executemany_collision)
    with 1(2) have "f gen_code (i + nat amount) pt amount tbl = Some res"
      by (simp add: Let_def del: map_map)
    from 1(1) [OF this] obtain k
      where "batch_fresh (batch gen_code (i + nat amount + k * nat amount) (nat amount)) tbl" ..
    then have "batch_fresh (batch gen_code (i + Suc k * nat amount) (nat amount)) tbl"
      by (simp add: add.assoc)
    then show ?thesis ..
  qed
qed

text \<open>
  The condition on the generator is needed: when every pass collides, the loop of
  \<^verbatim>\<open>gen_point_code\<close> never returns.
\<close>

theorem gen_point_code_never_returns:
  "(\<forall>k. \<not> batch_fresh (batch gen_code (i + k * nat amount) (nat amount)) tbl) \<Longrightarrow>
     gen_point_code gen_code i pt amount tbl = None"
  using gen_point_code_only_fresh [of gen_code i pt amount tbl]
  by (cases "gen_point_code gen_code i pt amount tbl") auto

text \<open>
  A generator that always returns a code the table holds.
\<close>

theorem gen_point_code_never_returns_witness:
  "gen_point_code (\<lambda>k. ''a'') 0 10 1 [\<lparr>code = ''a'', point = 5, used_by = 3\<rparr>] = None"
proof -
  have "\<forall>k. \<not> batch_fresh (batch (\<lambda>k. ''a'') (0 + k * nat 1) (nat 1))
      [\<lparr>code = ''a'', point = 5, used_by = 3\<rparr>]"
    by (simp add: batch_fresh_def batch_def)
  then show ?thesis by (rule gen_point_code_never_returns)
qed

text \<open>
  A generator whose first pass collides with itself and whose second pass collides with
  the table: the third pass is committed.
\<close>

theorem gen_point_code_issues_witness:
  "gen_point_code (\<lambda>k. if k < 2 then ''a'' else replicate k CHR ''z'') 0 10 2
     [\<lparr>code = ''zz'', point = 5, used_by = 3\<rparr>] =
   Some ((Some [''zzzz'', ''zzzzz''], None),
         [\<lparr>code = ''zz'', point = 5, used_by = 3\<rparr>,
          \<lparr>code = ''zzzz'', point = 10, used_by = 0\<rparr>,
          \<lparr>code = ''zzzzz'', point = 10, used_by = 0\<rparr>],
         6)"
proof -
  let ?gen = "\<lambda>k::nat. if k < 2 then ''a'' else replicate k CHR ''z''"
  let ?tbl = "[\<lparr>code = ''zz'', point = 5, used_by = 3\<rparr>]"
  have b0: "batch ?gen (0 + 0 * nat 2) (nat 2) = [''a'', ''a'']"
    and b1: "batch ?gen (0 + 1 * nat 2) (nat 2) = [''zz'', ''zzz'']"
    and b2: "batch ?gen (0 + 2 * nat 2) (nat 2) = [''zzzz'', ''zzzzz'']"
    by (simp_all add: batch_def eval_nat_numeral)
  have fresh: "batch_fresh (batch ?gen (0 + 2 * nat 2) (nat 2)) ?tbl"
    unfolding b2 by (simp add: batch_fresh_def)
  from gen_point_code_issues [OF fresh, of 10] obtain codes m
    where m: "m \<le> 2"
      and res: "gen_point_code ?gen 0 10 2 ?tbl =
        Some ((Some codes, None), ?tbl @ issued_rows 10 codes, 0 + Suc m * nat 2)"
      and codes: "codes = batch ?gen (0 + m * nat 2) (nat 2)"
      and ok: "distinct codes" "set codes \<inter> set (map code ?tbl) = {}"
    by blast
  from m consider "m = 0" | "m = 1" | "m = 2" by linarith
  then have "m = 2"
  proof cases
    case 1
    from codes have "codes = [''a'', ''a'']" unfolding 1 b0 .
    with ok(1) show ?thesis by simp
  next
    case 2
    from codes have "codes = [''zz'', ''zzz'']" unfolding 2 b1 .
    with ok(2) show ?thesis by simp
  next
    case 3
    then show ?thesis .
  qed
  from codes have "codes = [''zzzz'', ''zzzzz'']" unfolding \<open>m = 2\<close> b2 .
  with res \<open>m = 2\<close> show ?thesis by (simp add: issued_rows_def)
qed

section \<open>Properties of the submission log\<close>

lemma sum_sql_bool: "sum_list (map (\<lambda>r. sql_bool (P r)) rows) = int (length (filter P rows))"
  by (induction rows) (simp_all add: sql_bool_def)

lemma coalesce_sql_sum: "coalesce (sql_sum xs) 0 = sum_list xs"
  by (simp add: coalesce_def sql_sum_def)

lemma success_count_length: "success_count rows = int (length (filter is_correct rows))"
  unfolding success_count_def coalesce_sql_sum
  using sum_sql_bool [of "\<lambda>r. is_correct r = True" rows] by simp

lemma fail_count_length: "fail_count rows = int (length (filter (\<lambda>r. \<not> is_correct r) rows))"
  unfolding fail_count_def coalesce_sql_sum
  using sum_sql_bool [of "\<lambda>r. is_correct r = False" rows] by simp

lemma get_submissions_statistics_lengths:
  "get_submissions_statistics g t subs =
     (Some (int (length (filter (\<lambda>r. group_id r = g \<and> submission.task_id r = t \<and> is_correct r) subs)),
            int (length (filter (\<lambda>r. group_id r = g \<and> submission.task_id r = t \<and> \<not> is_correct r) subs))),
      None)"
  by (simp add: get_submissions_statistics_def success_count_length fail_count_length)

text \<open>
  Claim C8. \<^verbatim>\<open>get_submissions_statistics(group_id, task_id)\<close> returns, with no error,
  the pair of the number of submissions of exactly that group and task with
  \<^verbatim>\<open>is_correct\<close> true and the number of those with \<^verbatim>\<open>is_correct\<close> false; both are 0
  when the log has no submission of that group and task.
\<close>

theorem get_submissions_statistics_counts:
  "get_submissions_statistics g t subs =
     (Some (int (length (filter (\<lambda>r. group_id r = g \<and> submission.task_id r = t \<and> is_correct r) subs)),
            int (length (filter (\<lambda>r. group_id r = g \<and> submission.task_id r = t \<and> \<not> is_correct r) subs))),
      None) \<and>
   ((\<forall>r \<in> set subs. \<not> (group_id r = g \<and> submission.task_id r = t)) \<longrightarrow>
      get_submissions_statistics g t subs = (Some (0, 0), None))"
proof -
  have cnt: "get_submissions_statistics g t subs =
     (Some (int (length (filter (\<lambda>r. group_id r = g \<and> submission.task_id r = t \<and> is_correct r) subs)),
            int (length (filter (\<lambda>r. group_id r = g \<and> submission.task_id r = t \<and> \<not> is_correct r) subs))),
      None)"
    by (rule get_submissions_statistics_lengths)
  have "get_submissions_statistics g t subs = (Some (0, 0), None)"
    if "\<forall>r \<in> set subs. \<not> (group_id r = g \<and> submission.task_id r = t)"
  proof -
    from that have "filter (\<lambda>r. group_id r = g \<and> submission.task_id r = t \<and> is_correct r) subs = []"
      and "filter (\<lambda>r. group_id r = g \<and> submission.task_id r = t \<and> \<not> is_correct r) subs = []"
      by (auto simp: filter_empty_conv)
    with cnt show ?thesis by simp
  qed
  with cnt show ?thesis by blast
qed

text \<open>
  One correct and two wrong submissions among five records, and a pair with no record.
\<close>

theorem get_submissions_statistics_counts_witness:
  "get_submissions_statistics 2 ''t1''
     [\<lparr>group_id = 2, task_id = ''t1'', password = ''x'', is_correct = False\<rparr>,
      \<lparr>group_id = 2, task_id = ''t2'', password = ''y'', is_correct = True\<rparr>,
      \<lparr>group_id = 3, task_id = ''t1'', password = ''z'', is_correct = True\<rparr>,
      \<lparr>group_id = 2, task_id = ''t1'', password = ''w'', is_correct = False\<rparr>,
      \<lparr>group_id = 2, task_id = ''t1'', password = ''v'', is_correct = True\<rparr>] =
     (Some (1, 2), None) \<and>
   get_submissions_statistics 5 ''t1''
     [\<lparr>group_id = 2, task_id = ''t1'', password = ''x'', is_correct = False\<rparr>,
      \<lparr>group_id = 2, task_id = ''t2'', password = ''y'', is_correct = True\<rparr>] =
     (Some (0, 0), None)"
proof -
  let ?subs = "[\<lparr>group_id = 2, task_id = ''t1'', password = ''x'', is_correct = False\<rparr>,
      \<lparr>group_id = 2, task_id = ''t2'', password = ''y'', is_correct = True\<rparr>]"
  have none: "\<forall>r \<in> set ?subs. \<not> (group_id r = 5 \<and> submission.task_id r = ''t1'')" by simp
  from get_submissions_statistics_counts [of 5 "''t1''" ?subs] none
  have "get_submissions_statistics 5 ''t1'' ?subs = (Some (0, 0), None)" by blast
  moreover have "get_submissions_statistics 2 ''t1''
     [\<lparr>group_id = 2, task_id = ''t1'', password = ''x'', is_correct = False\<rparr>,
      \<lparr>group_id = 2, task_id = ''t2'', password = ''y'', is_correct = True\<rparr>,
      \<lparr>group_id = 3, task_id = ''t1'', password = ''z'', is_correct = True\<rparr>,
      \<lparr>group_id = 2, task_id = ''t1'', password = ''w'', is_correct = False\<rparr>,
      \<lparr>group_id = 2, task_id = ''t1'', password = ''v'', is_correct = True\<rparr>] =
     (Some (1, 2), None)"
    by (simp add: get_submissions_statistics_counts)
  ultimately show ?thesis by simp
qed

section \<open>Properties of the ranking\<close>

lemma keys_group_sum_insert:
  "set (map fst (group_sum_insert g p acc)) = insert g (set (map fst acc))"
  by (induction acc) force+

lemma distinct_group_sum_insert:
  "distinct (map fst acc) \<Longrightarrow> distinct (map fst (group_sum_insert g p acc))"
proof (induction acc)
  case Nil
  then show ?case by simp
next
  case (Cons a acc)
  obtain g' s where a: "a = (g', s)" by (cases a)
  with Cons keys_group_sum_insert [of g p acc] show ?case by auto
qed

lemma map_of_group_sum_insert:
  "map_of (group_sum_insert g p acc) k =
     (if k = g then Some (sum_step (case map_of acc g of None \<Rightarrow> Some 0 | Some s \<Rightarrow> s) p)
      else map_of acc k)"
  by (induction acc) auto

lemma group_points_Cons:
  "group_points k (r # rows) = (if used_by r = k then point r # group_points k rows else group_points k rows)"
  by (simp add: group_points_def)

lemma fold_group_sums:
  "map_of (foldl (\<lambda>acc r. group_sum_insert (used_by r) (point r) acc) acc rows) k =
     (case map_of acc k of
        Some st \<Rightarrow> Some (foldl sum_step st (group_points k rows))
      | None \<Rightarrow> if k \<in> used_by ` set rows then Some (foldl sum_step (Some 0) (group_points k rows))
          else None)"
proof (induction rows arbitrary: acc)
  case Nil
  then show ?case by (simp add: group_points_def split: option.splits)
next
  case (Cons r rows)
  show ?case
    unfolding foldl_Cons Cons.IH map_of_group_sum_insert group_points_Cons
    by (auto split: option.splits)
qed

lemma fold_group_sums_distinct:
  "distinct (map fst acc) \<Longrightarrow>
     distinct (map fst (foldl (\<lambda>acc r. group_sum_insert (used_by r) (point r) acc) acc rows))"
  by (induction rows arbitrary: acc) (simp_all add: distinct_group_sum_insert)

lemma distinct_group_sums: "distinct (map fst (group_sums rows))"
  unfolding group_sums_def by (rule fold_group_sums_distinct) simp

lemma set_group_sums:
  "(g, st) \<in> set (group_sums rows) \<longleftrightarrow>
     g \<in> used_by ` set rows \<and> st = foldl sum_step (Some 0) (group_points g rows)"
proof -
  have "(g, st) \<in> set (group_sums rows) \<longleftrightarrow> map_of (group_sums rows) g = Some st"
    using distinct_group_sums [of rows] by simp
  also have "\<dots> \<longleftrightarrow> g \<in> used_by ` set rows \<and> st = foldl sum_step (Some 0) (group_points g rows)"
    unfolding group_sums_def fold_group_sums by auto
  finally show ?thesis .
qed

lemma foldl_sum_step_None: "foldl sum_step None vs = None"
  by (induction vs) simp_all

lemma foldl_sum_step:
  "int64 s \<Longrightarrow>
     foldl sum_step (Some s) vs =
       (if \<forall>n < Suc (length vs). int64 (s + sum_list (take n vs)) then Some (s + sum_list vs)
        else None)"
proof (induction vs arbitrary: s)
  case Nil
  then show ?case by simp
next
  case (Cons v vs)
  have split: "(\<forall>n < Suc (length (v # vs)). int64 (s + sum_list (take n (v # vs)))) \<longleftrightarrow>
      int64 s \<and> (\<forall>n < Suc (length vs). int64 (s + v + sum_list (take n vs)))"
    by (subst All_less_Suc2) (simp add: add.assoc)
  show ?case
  proof (cases "int64 (s + v)")
    case True
    from Cons.IH [OF True] Cons.prems show ?thesis
      unfolding split by (simp add: True add.assoc)
  next
    case False
    have "\<not> (\<forall>n < Suc (length vs). int64 (s + v + sum_list (take n vs)))"
    proof
      assume "\<forall>n < Suc (length vs). int64 (s + v + sum_list (take n vs))"
      then have "int64 (s + v + sum_list (take 0 vs))" by blast
      with False show False by simp
    qed
    with False show ?thesis unfolding split by (simp add: foldl_sum_step_None)
  qed
qed

lemma int64_zero: "int64 0"
  by (simp add: int64_def)

lemma running_sum:
  "foldl sum_step (Some 0) vs =
     (if \<forall>n \<in> {..length vs}. int64 (sum_list (take n vs)) then Some (sum_list vs) else None)"
  using foldl_sum_step [OF int64_zero, of vs] by (simp add: less_Suc_eq_le)

lemma sum_results_all:
  "\<forall>x \<in> set acc. snd x = Some (T (fst x)) \<Longrightarrow>
     sum_results acc = Some (map (\<lambda>x. (fst x, T (fst x))) acc)"
proof (induction acc)
  case Nil
  then show ?case by simp
next
  case (Cons a acc)
  obtain g st where a: "a = (g, st)" by (cases a)
  with Cons show ?case by simp
qed

lemma sum_results_overflow:
  "\<exists>x \<in> set acc. snd x = None \<Longrightarrow> sum_results acc = None"
proof (induction acc)
  case Nil
  then show ?case by simp
next
  case (Cons a acc)
  obtain g st where a: "a = (g, st)" by (cases a)
  show ?case
  proof (cases st)
    case None
    with a show ?thesis by simp
  next
    case (Some s)
    with Cons.prems a have "\<exists>x \<in> set acc. snd x = None" by auto
    from Cons.IH [OF this] a Some show ?thesis by simp
  qed
qed

lemma group_points_redeemed:
  "g > 0 \<Longrightarrow> group_points g (filter (\<lambda>r. used_by r > 0) tbl) = group_points g tbl"
proof -
  assume "g > 0"
  then have "filter (\<lambda>r. used_by r = g) (filter (\<lambda>r. used_by r > 0) tbl) =
      filter (\<lambda>r. used_by r = g) tbl"
    by (auto intro: filter_cong)
  then show ?thesis by (simp only: group_points_def)
qed


lemma set_rank_insert: "set (rank_insert a bs) = insert a (set bs)"
  by (induction bs) auto

lemma set_rank_sort: "set (rank_sort xs) = set xs"
  by (induction xs) (simp_all add: set_rank_insert)

lemma distinct_rank_insert:
  "distinct (map fst (rank_insert a bs)) \<longleftrightarrow> fst a \<notin> fst ` set bs \<and> distinct (map fst bs)"
  by (induction bs) (auto simp: set_rank_insert)

lemma distinct_rank_sort: "distinct (map fst (rank_sort xs)) \<longleftrightarrow> distinct (map fst xs)"
  by (induction xs) (simp_all add: distinct_rank_insert set_rank_sort)

lemma rank_before_total: "rank_before a b \<or> rank_before b a"
  by (auto simp: rank_before_def)

lemma rank_before_trans: "rank_before a b \<Longrightarrow> rank_before b c \<Longrightarrow> rank_before a c"
  by (auto simp: rank_before_def)

lemma sorted_rank_insert:
  "sorted_wrt rank_before bs \<Longrightarrow> sorted_wrt rank_before (rank_insert a bs)"
proof (induction bs)
  case Nil
  then show ?case by simp
next
  case (Cons b bs)
  show ?case
  proof (cases "rank_before a b")
    case True
    with Cons.prems show ?thesis by (auto intro: rank_before_trans)
  next
    case False
    then have "rank_before b a" using rank_before_total by blast
    with False Cons show ?thesis by (auto simp: set_rank_insert)
  qed
qed

lemma sorted_rank_sort: "sorted_wrt rank_before (rank_sort xs)"
  by (induction xs) (simp_all add: sorted_rank_insert)

lemma ranked_above_distinct:
  "sorted_wrt rank_before xs \<Longrightarrow> distinct (map fst xs) \<Longrightarrow> sorted_wrt ranked_above xs"
proof (induction xs)
  case Nil
  then show ?case by simp
next
  case (Cons a xs)
  then have "\<forall>b \<in> set xs. ranked_above a b"
    by (force simp: rank_before_def ranked_above_def)
  with Cons show ?case by simp
qed

lemma sums_fit_iff:
  "sums_fit tbl \<longleftrightarrow>
     (\<forall>x \<in> set (group_sums (filter (\<lambda>r. used_by r > 0) tbl)).
        snd x = Some (group_total (fst x) tbl))"
proof
  assume fit: "sums_fit tbl"
  show "\<forall>x \<in> set (group_sums (filter (\<lambda>r. used_by r > 0) tbl)).
        snd x = Some (group_total (fst x) tbl)"
  proof
    fix x assume "x \<in> set (group_sums (filter (\<lambda>r. used_by r > 0) tbl))"
    then have "(fst x, snd x) \<in> set (group_sums (filter (\<lambda>r. used_by r > 0) tbl))" by simp
    then have g: "fst x \<in> used_by ` set (filter (\<lambda>r. used_by r > 0) tbl)"
      and st: "snd x = foldl sum_step (Some 0) (group_points (fst x) (filter (\<lambda>r. used_by r > 0) tbl))"
      unfolding set_group_sums by simp_all
    from g have pos: "fst x > 0" and mem: "fst x \<in> set (map used_by tbl)" by auto
    from fit mem pos
    have "\<forall>n \<in> {..length (group_points (fst x) tbl)}.
        int64 (sum_list (take n (group_points (fst x) tbl)))"
      unfolding sums_fit_def by blast
    then show "snd x = Some (group_total (fst x) tbl)"
      unfolding st group_points_redeemed [OF pos] running_sum group_total_def by simp
  qed
next
  assume all: "\<forall>x \<in> set (group_sums (filter (\<lambda>r. used_by r > 0) tbl)).
        snd x = Some (group_total (fst x) tbl)"
  show "sums_fit tbl"
    unfolding sums_fit_def
  proof (intro ballI impI)
    fix g n
    assume mem: "g \<in> set (map used_by tbl)" and pos: "g > 0"
      and n: "n \<in> {..length (group_points g tbl)}"
    from mem pos have g: "g \<in> used_by ` set (filter (\<lambda>r. used_by r > 0) tbl)" by auto
    let ?st = "foldl sum_step (Some 0) (group_points g (filter (\<lambda>r. used_by r > 0) tbl))"
    from g have "(g, ?st) \<in> set (group_sums (filter (\<lambda>r. used_by r > 0) tbl))"
      unfolding set_group_sums by simp
    with all have "snd (g, ?st) = Some (group_total (fst (g, ?st)) tbl)" by (rule bspec)
    then have "foldl sum_step (Some 0) (group_points g tbl) \<noteq> None"
      unfolding group_points_redeemed [OF pos] by simp
    then have "\<forall>n \<in> {..length (group_points g tbl)}. int64 (sum_list (take n (group_points g tbl)))"
      unfolding running_sum by (simp split: if_splits)
    from this n show "int64 (sum_list (take n (group_points g tbl)))" by (rule bspec)
  qed
qed

lemma overflow_found:
  assumes "\<not> sums_fit tbl"
  shows "\<exists>x \<in> set (group_sums (filter (\<lambda>r. used_by r > 0) tbl)). snd x = None"
proof -
  from assms obtain x
    where x: "x \<in> set (group_sums (filter (\<lambda>r. used_by r > 0) tbl))"
      and ne: "snd x \<noteq> Some (group_total (fst x) tbl)"
    unfolding sums_fit_iff by blast
  from x have "(fst x, snd x) \<in> set (group_sums (filter (\<lambda>r. used_by r > 0) tbl))" by simp
  then have g: "fst x \<in> used_by ` set (filter (\<lambda>r. used_by r > 0) tbl)"
    and st: "snd x = foldl sum_step (Some 0) (group_points (fst x) (filter (\<lambda>r. used_by r > 0) tbl))"
    unfolding set_group_sums by simp_all
  from g have pos: "fst x > 0" by auto
  from st ne have "snd x = None"
    unfolding group_points_redeemed [OF pos] running_sum group_total_def
    by (simp split: if_splits)
  with x show ?thesis by blast
qed

text \<open>
  Claim C4, as amended. When the sums fit (for every group that redeemed a code, each
  running sum of its points, taken in table order, lies in the signed 64-bit range),
  \<^verbatim>\<open>get_group_point()\<close> returns, with no error, a list made of two parts. The first
  holds exactly one pair \<open>(g, total)\<close> for each group \<open>g > 0\<close> that is the \<^verbatim>\<open>used_by\<close>
  of some row, with \<open>total\<close> the sum of \<^verbatim>\<open>point\<close> over the rows with \<^verbatim>\<open>used_by = g\<close>;
  so a row with \<^verbatim>\<open>used_by = -1\<close> or \<^verbatim>\<open>used_by = 0\<close> adds to no total, and a group outside
  1..9 that redeemed a code has its pair. The pairs are ordered by total descending, and
  among equal totals by group id ascending. The second part is \<open>(i, 0)\<close> for each \<open>i\<close>
  of 1..9, in ascending order, that is the \<^verbatim>\<open>used_by\<close> of no row. When the sums do not
  fit, it returns no list and the error \<^verbatim>\<open>integer overflow\<close>.
\<close>

theorem get_group_point_ranking:
  "(sums_fit tbl \<longrightarrow>
      (\<exists>ranked.
         get_group_point tbl =
           (Some (ranked @ map (\<lambda>i. (i, 0)) (filter (\<lambda>i. i \<notin> used_by ` set tbl) [1..9])), None) \<and>
         (\<forall>g p. (g, p) \<in> set ranked \<longleftrightarrow> g > 0 \<and> g \<in> used_by ` set tbl \<and> p = group_total g tbl) \<and>
         distinct (map fst ranked) \<and>
         sorted_wrt ranked_above ranked)) \<and>
   (\<not> sums_fit tbl \<longrightarrow> get_group_point tbl = (None, Some ''integer overflow''))"
proof (intro conjI impI)
  assume "\<not> sums_fit tbl"
  then have "sum_results (group_sums (filter (\<lambda>r. used_by r > 0) tbl)) = None"
    by (intro sum_results_overflow overflow_found)
  then show "get_group_point tbl = (None, Some ''integer overflow'')"
    by (simp add: get_group_point_def)
next
  assume fit: "sums_fit tbl"
  let ?acc = "group_sums (filter (\<lambda>r. used_by r > 0) tbl)"
  let ?sums = "map (\<lambda>x. (fst x, group_total (fst x) tbl)) ?acc"
  let ?ranked = "rank_sort ?sums"
  from fit have "\<forall>x \<in> set ?acc. snd x = Some (group_total (fst x) tbl)"
    unfolding sums_fit_iff .
  then have res: "sum_results ?acc = Some ?sums"
    by (rule sum_results_all)
  have keys: "map fst ?sums = map fst ?acc" by (simp add: comp_def)
  have keyset: "fst ` set ?acc = {g \<in> used_by ` set tbl. g > 0}"
  proof (intro set_eqI iffI)
    fix g assume "g \<in> fst ` set ?acc"
    then obtain st where "(g, st) \<in> set ?acc" by force
    then show "g \<in> {g \<in> used_by ` set tbl. g > 0}" unfolding set_group_sums by auto
  next
    fix g assume "g \<in> {g \<in> used_by ` set tbl. g > 0}"
    then have "g \<in> used_by ` set (filter (\<lambda>r. used_by r > 0) tbl)" by auto
    then have "(g, foldl sum_step (Some 0) (group_points g (filter (\<lambda>r. used_by r > 0) tbl)))
        \<in> set ?acc"
      unfolding set_group_sums by simp
    then show "g \<in> fst ` set ?acc" by force
  qed
  have mem: "(g, p) \<in> set ?ranked \<longleftrightarrow> g > 0 \<and> g \<in> used_by ` set tbl \<and> p = group_total g tbl" for g p
  proof -
    have "(g, p) \<in> set ?ranked \<longleftrightarrow> g \<in> fst ` set ?acc \<and> p = group_total g tbl"
      unfolding set_rank_sort by force
    then show ?thesis unfolding keyset by blast
  qed
  have dist: "distinct (map fst ?ranked)"
    unfolding distinct_rank_sort keys by (rule distinct_group_sums)
  have sorted: "sorted_wrt ranked_above ?ranked"
    using sorted_rank_sort dist by (rule ranked_above_distinct)
  have "i \<notin> set (map fst ?ranked) \<longleftrightarrow> i \<notin> used_by ` set tbl" if "i \<in> set [1..9]" for i
  proof -
    from that have "i > 0" by simp
    have "i \<in> set (map fst ?ranked) \<longleftrightarrow> (\<exists>p. (i, p) \<in> set ?ranked)" by force
    with mem \<open>i > 0\<close> show ?thesis by simp
  qed
  then have "filter (\<lambda>i. i \<notin> set (map fst ?ranked)) [1..9] =
      filter (\<lambda>i. i \<notin> used_by ` set tbl) [1..9]"
    by (intro filter_cong) simp_all
  then have "get_group_point tbl =
       (Some (?ranked @ map (\<lambda>i. (i, 0)) (filter (\<lambda>i. i \<notin> used_by ` set tbl) [1..9])), None)"
    unfolding get_group_point_def res by (simp add: Let_def)
  with mem dist sorted
  show "\<exists>ranked.
         get_group_point tbl =
           (Some (ranked @ map (\<lambda>i. (i, 0)) (filter (\<lambda>i. i \<notin> used_by ` set tbl) [1..9])), None) \<and>
         (\<forall>g p. (g, p) \<in> set ranked \<longleftrightarrow> g > 0 \<and> g \<in> used_by ` set tbl \<and> p = group_total g tbl) \<and>
         distinct (map fst ranked) \<and>
         sorted_wrt ranked_above ranked"
    by blast
qed


lemma groups_1_to_9: "[1..9] = [1, 2, 3, 4, 5, 6, 7, 8, 9 :: int]"
  by (simp add: upto_rec1)

text \<open>
  Claim C4 as it is written fails on a table the store can hold: group 1 redeemed
  \<open>2^63 - 1\<close> points and 1 point, its total is \<open>2^63\<close>, and \<^verbatim>\<open>get_group_point()\<close>
  returns the error \<^verbatim>\<open>integer overflow\<close> instead of a ranking.
\<close>

theorem get_group_point_overflow_counterexample:
  "get_group_point
     [\<lparr>code = ''a'', point = 9223372036854775807, used_by = 1\<rparr>,
      \<lparr>code = ''b'', point = 1, used_by = 1\<rparr>] = (None, Some ''integer overflow'') \<and>
   group_total 1
     [\<lparr>code = ''a'', point = 9223372036854775807, used_by = 1\<rparr>,
      \<lparr>code = ''b'', point = 1, used_by = 1\<rparr>] = 9223372036854775808"
  by (simp add: get_group_point_def group_sums_def int64_def group_total_def group_points_def)

text \<open>
  The example of the spec (groups 3 and 1 with 100 points, group 2 with 50), with group
  1 redeeming two codes, a deleted code, an unredeemed code and a group 12; and a table
  where a running sum of group 1 overflows although its total fits.
\<close>

theorem get_group_point_ranking_witness:
  "get_group_point
     [\<lparr>code = ''a'', point = 100, used_by = 3\<rparr>, \<lparr>code = ''b'', point = 60, used_by = 1\<rparr>,
      \<lparr>code = ''c'', point = 50, used_by = 2\<rparr>, \<lparr>code = ''d'', point = 40, used_by = 1\<rparr>,
      \<lparr>code = ''e'', point = 900, used_by = - 1\<rparr>, \<lparr>code = ''f'', point = 70, used_by = 0\<rparr>,
      \<lparr>code = ''g'', point = 10, used_by = 12\<rparr>] =
   (Some [(1, 100), (3, 100), (2, 50), (12, 10), (4, 0), (5, 0), (6, 0), (7, 0), (8, 0), (9, 0)],
    None) \<and>
   get_group_point
     [\<lparr>code = ''a'', point = 9223372036854775807, used_by = 1\<rparr>,
      \<lparr>code = ''c'', point = 5, used_by = 2\<rparr>,
      \<lparr>code = ''b'', point = 1, used_by = 1\<rparr>,
      \<lparr>code = ''d'', point = - 1, used_by = 1\<rparr>] = (None, Some ''integer overflow'')"
proof -
  let ?tbl = "[\<lparr>code = ''a'', point = 100, used_by = 3\<rparr>, \<lparr>code = ''b'', point = 60, used_by = 1\<rparr>,
      \<lparr>code = ''c'', point = 50, used_by = 2\<rparr>, \<lparr>code = ''d'', point = 40, used_by = 1\<rparr>,
      \<lparr>code = ''e'', point = 900, used_by = - 1\<rparr>, \<lparr>code = ''f'', point = 70, used_by = 0\<rparr>,
      \<lparr>code = ''g'', point = 10, used_by = 12\<rparr>]"
  let ?big = "[\<lparr>code = ''a'', point = 9223372036854775807, used_by = 1\<rparr>,
      \<lparr>code = ''c'', point = 5, used_by = 2\<rparr>,
      \<lparr>code = ''b'', point = 1, used_by = 1\<rparr>,
      \<lparr>code = ''d'', point = - 1, used_by = 1\<rparr>]"
  have acc: "group_sums (filter (\<lambda>r. used_by r > 0) ?tbl) =
      [(3, Some 100), (1, Some 100), (2, Some 50), (12, Some 10)]"
    by (simp add: group_sums_def int64_def)
  have fit: "sums_fit ?tbl"
    unfolding sums_fit_iff acc by (simp add: group_total_def group_points_def)
  from get_group_point_ranking [of ?tbl] fit obtain ranked
    where res: "get_group_point ?tbl =
        (Some (ranked @ map (\<lambda>i. (i, 0)) (filter (\<lambda>i. i \<notin> used_by ` set ?tbl) [1..9])), None)"
    by blast
  have pad: "map (\<lambda>i. (i, 0)) (filter (\<lambda>i. i \<notin> used_by ` set ?tbl) [1..9]) =
      [(4, 0), (5, 0), (6, 0), (7, 0), (8, 0), (9, 0 :: int)]"
    by (simp add: groups_1_to_9)
  have "get_group_point ?tbl =
      (Some ([(1, 100), (3, 100), (2, 50), (12, 10)] @
         [(4, 0), (5, 0), (6, 0), (7, 0), (8, 0), (9, 0)]), None)"
    unfolding get_group_point_def acc by (simp add: rank_before_def groups_1_to_9)
  with res have "ranked = [(1, 100), (3, 100), (2, 50), (12, 10)]"
    unfolding pad by simp
  with res have 1: "get_group_point ?tbl =
      (Some [(1, 100), (3, 100), (2, 50), (12, 10), (4, 0), (5, 0), (6, 0), (7, 0), (8, 0), (9, 0)],
       None)"
    unfolding pad by simp
  have accb: "group_sums (filter (\<lambda>r. used_by r > 0) ?big) = [(1, None), (2, Some 5)]"
    by (simp add: group_sums_def int64_def)
  have "\<not> sums_fit ?big"
    unfolding sums_fit_iff accb by simp
  with get_group_point_ranking [of ?big]
  have 2: "get_group_point ?big = (None, Some ''integer overflow'')" by blast
  from 1 2 show ?thesis by (intro conjI)
qed

section \<open>Properties of the scoreboard\<close>

lemma loop_step:
  "scoreboard_loop lookup ((g, t, s, f) # rows) table = Inr table' \<Longrightarrow>
     \<exists>tk inner. lookup t = Inr (Some tk) \<and> table g = Some inner \<and>
       scoreboard_loop lookup rows (table(g \<mapsto> inner(t \<mapsto> status_of tk s f))) = Inr table'"
  by (auto split: sum.splits option.splits)

lemma loop_step_eq:
  "lookup t = Inr (Some tk) \<Longrightarrow> table g = Some inner \<Longrightarrow>
     scoreboard_loop lookup ((g, t, s, f) # rows) table =
       scoreboard_loop lookup rows (table(g \<mapsto> inner(t \<mapsto> status_of tk s f)))"
  by simp

lemma loop_rows_ok:
  "scoreboard_loop lookup rows table = Inr table' \<Longrightarrow> (g, t, s, f) \<in> set rows \<Longrightarrow>
     (\<exists>tk. lookup t = Inr (Some tk)) \<and> table g \<noteq> None"
proof (induction rows arbitrary: table)
  case Nil
  then show ?case by simp
next
  case (Cons row rows)
  obtain g0 t0 s0 f0 where row: "row = (g0, t0, s0, f0)" by (cases row)
  from loop_step [OF Cons.prems(1) [unfolded row]] obtain tk inner
    where h: "lookup t0 = Inr (Some tk)" "table g0 = Some inner"
      and rest: "scoreboard_loop lookup rows (table(g0 \<mapsto> inner(t0 \<mapsto> status_of tk s0 f0))) = Inr table'"
    by blast
  show ?case
  proof (cases "(g, t, s, f) = row")
    case True
    with row h show ?thesis by auto
  next
    case False
    with Cons.prems(2) have "(g, t, s, f) \<in> set rows" by simp
    from Cons.IH [OF rest this] h(2) show ?thesis by (auto split: if_splits)
  qed
qed

lemma loop_dom:
  "scoreboard_loop lookup rows table = Inr table' \<Longrightarrow> dom table' = dom table"
proof (induction rows arbitrary: table)
  case Nil
  then show ?case by simp
next
  case (Cons row rows)
  obtain g0 t0 s0 f0 where row: "row = (g0, t0, s0, f0)" by (cases row)
  from loop_step [OF Cons.prems(1) [unfolded row]] obtain tk inner
    where h: "table g0 = Some inner"
      and rest: "scoreboard_loop lookup rows (table(g0 \<mapsto> inner(t0 \<mapsto> status_of tk s0 f0))) = Inr table'"
    by blast
  from Cons.IH [OF rest] have "dom table' = insert g0 (dom table)"
    by (simp only: dom_fun_upd option.distinct if_False)
  moreover from h have "g0 \<in> dom table" by blast
  ultimately show ?case by (simp only: insert_absorb)
qed

lemma loop_inner_dom:
  "scoreboard_loop lookup rows table = Inr table' \<Longrightarrow> table g = Some inner \<Longrightarrow>
     \<exists>inner'. table' g = Some inner' \<and> dom inner' = dom inner \<union> {t. \<exists>s f. (g, t, s, f) \<in> set rows}"
proof (induction rows arbitrary: table inner)
  case Nil
  then show ?case by simp
next
  case (Cons row rows)
  obtain g0 t0 s0 f0 where row: "row = (g0, t0, s0, f0)" by (cases row)
  from loop_step [OF Cons.prems(1) [unfolded row]] obtain tk inner0
    where h: "table g0 = Some inner0"
      and rest: "scoreboard_loop lookup rows (table(g0 \<mapsto> inner0(t0 \<mapsto> status_of tk s0 f0))) = Inr table'"
    by blast
  show ?case
  proof (cases "g0 = g")
    case True
    with h Cons.prems(2) have same: "inner0 = inner" by simp
    have "(table(g0 \<mapsto> inner0(t0 \<mapsto> status_of tk s0 f0))) g = Some (inner(t0 \<mapsto> status_of tk s0 f0))"
      using True same by simp
    from Cons.IH [OF rest this] obtain inner'
      where "table' g = Some inner'"
        and "dom inner' = dom (inner(t0 \<mapsto> status_of tk s0 f0)) \<union> {t. \<exists>s f. (g, t, s, f) \<in> set rows}"
      by blast
    with row True show ?thesis by auto
  next
    case False
    with Cons.prems(2) have "(table(g0 \<mapsto> inner0(t0 \<mapsto> status_of tk s0 f0))) g = Some inner" by simp
    from Cons.IH [OF rest this] obtain inner'
      where "table' g = Some inner'"
        and "dom inner' = dom inner \<union> {t. \<exists>s f. (g, t, s, f) \<in> set rows}"
      by blast
    with row False show ?thesis by auto
  qed
qed

lemma loop_untouched:
  "scoreboard_loop lookup rows table = Inr table' \<Longrightarrow> table g = Some inner \<Longrightarrow>
     \<forall>s f. (g, t, s, f) \<notin> set rows \<Longrightarrow>
     \<exists>inner'. table' g = Some inner' \<and> inner' t = inner t"
proof (induction rows arbitrary: table inner)
  case Nil
  then show ?case by simp
next
  case (Cons row rows)
  obtain g0 t0 s0 f0 where row: "row = (g0, t0, s0, f0)" by (cases row)
  from loop_step [OF Cons.prems(1) [unfolded row]] obtain tk inner0
    where h: "table g0 = Some inner0"
      and rest: "scoreboard_loop lookup rows (table(g0 \<mapsto> inner0(t0 \<mapsto> status_of tk s0 f0))) = Inr table'"
    by blast
  from Cons.prems(3) row have other: "\<not> (g0 = g \<and> t0 = t)"
    and tail: "\<forall>s f. (g, t, s, f) \<notin> set rows" by auto
  show ?case
  proof (cases "g0 = g")
    case True
    with h Cons.prems(2) have same: "inner0 = inner" by simp
    have "(table(g0 \<mapsto> inner0(t0 \<mapsto> status_of tk s0 f0))) g = Some (inner(t0 \<mapsto> status_of tk s0 f0))"
      using True same by simp
    from Cons.IH [OF rest this tail] obtain inner'
      where "table' g = Some inner'" "inner' t = (inner(t0 \<mapsto> status_of tk s0 f0)) t" by blast
    with other True show ?thesis by auto
  next
    case False
    with Cons.prems(2) have "(table(g0 \<mapsto> inner0(t0 \<mapsto> status_of tk s0 f0))) g = Some inner" by simp
    from Cons.IH [OF rest this tail] show ?thesis .
  qed
qed

lemma loop_assigned:
  "scoreboard_loop lookup rows table = Inr table' \<Longrightarrow>
     distinct (map (\<lambda>r. (fst r, fst (snd r))) rows) \<Longrightarrow>
     (g, t, s, f) \<in> set rows \<Longrightarrow> lookup t = Inr (Some tk) \<Longrightarrow>
     \<exists>inner'. table' g = Some inner' \<and> inner' t = Some (status_of tk s f)"
proof (induction rows arbitrary: table)
  case Nil
  then show ?case by simp
next
  case (Cons row rows)
  obtain g0 t0 s0 f0 where row: "row = (g0, t0, s0, f0)" by (cases row)
  from loop_step [OF Cons.prems(1) [unfolded row]] obtain tk0 inner0
    where h: "lookup t0 = Inr (Some tk0)" "table g0 = Some inner0"
      and rest: "scoreboard_loop lookup rows (table(g0 \<mapsto> inner0(t0 \<mapsto> status_of tk0 s0 f0))) = Inr table'"
    by blast
  from Cons.prems(2) row have fresh: "(g0, t0) \<notin> (\<lambda>r. (fst r, fst (snd r))) ` set rows"
    and dist: "distinct (map (\<lambda>r. (fst r, fst (snd r))) rows)" by simp_all
  show ?case
  proof (cases "(g, t, s, f) = row")
    case True
    with row have eq: "g0 = g" "t0 = t" "s0 = s" "f0 = f" by simp_all
    from fresh eq have none: "\<forall>s f. (g, t, s, f) \<notin> set rows" by force
    have "(table(g0 \<mapsto> inner0(t0 \<mapsto> status_of tk0 s0 f0))) g = Some (inner0(t0 \<mapsto> status_of tk0 s0 f0))"
      using eq by simp
    from loop_untouched [OF rest this none] obtain inner'
      where "table' g = Some inner'" "inner' t = (inner0(t0 \<mapsto> status_of tk0 s0 f0)) t" by blast
    with eq h(1) Cons.prems(4) show ?thesis by simp
  next
    case False
    with Cons.prems(3) have "(g, t, s, f) \<in> set rows" by simp
    from Cons.IH [OF rest dist this Cons.prems(4)] show ?thesis .
  qed
qed

lemma loop_returns:
  "\<forall>r \<in> set rows. (\<exists>tk. lookup (fst (snd r)) = Inr (Some tk)) \<and> table (fst r) \<noteq> None \<Longrightarrow>
     \<exists>table'. scoreboard_loop lookup rows table = Inr table'"
proof (induction rows arbitrary: table)
  case Nil
  then show ?case by simp
next
  case (Cons row rows)
  obtain g0 t0 s0 f0 where row: "row = (g0, t0, s0, f0)" by (cases row)
  from Cons.prems row obtain tk inner
    where h: "lookup t0 = Inr (Some tk)" "table g0 = Some inner" by auto
  have "\<forall>r \<in> set rows. (\<exists>tk. lookup (fst (snd r)) = Inr (Some tk)) \<and>
      (table(g0 \<mapsto> inner(t0 \<mapsto> status_of tk s0 f0))) (fst r) \<noteq> None"
    using Cons.prems by auto
  from Cons.IH [OF this] show ?case
    unfolding row loop_step_eq [where lookup = lookup and table = table, OF h] .
qed

lemma loop_raises:
  assumes "\<exists>r \<in> set rows. \<not> ((\<exists>tk. lookup (fst (snd r)) = Inr (Some tk)) \<and> table (fst r) \<noteq> None)"
  shows "\<exists>e. scoreboard_loop lookup rows table = Inl e"
proof (cases "scoreboard_loop lookup rows table")
  case (Inl e)
  then show ?thesis by blast
next
  case (Inr table')
  from assms obtain r where r: "r \<in> set rows"
    "\<not> ((\<exists>tk. lookup (fst (snd r)) = Inr (Some tk)) \<and> table (fst r) \<noteq> None)" by blast
  obtain g t s f where "r = (g, t, s, f)" by (cases r)
  with r loop_rows_ok [OF Inr, of g t s f] show ?thesis by simp
qed

lemma loop_KeyError:
  "\<forall>r \<in> set rows. \<exists>tk. lookup (fst (snd r)) = Inr (Some tk) \<Longrightarrow>
     \<exists>r \<in> set rows. table (fst r) = None \<Longrightarrow>
     scoreboard_loop lookup rows table = Inl KeyError"
proof (induction rows arbitrary: table)
  case Nil
  then show ?case by simp
next
  case (Cons row rows)
  obtain g0 t0 s0 f0 where row: "row = (g0, t0, s0, f0)" by (cases row)
  from Cons.prems(1) row obtain tk where tk: "lookup t0 = Inr (Some tk)" by auto
  show ?case
  proof (cases "table g0")
    case None
    with tk row show ?thesis by simp
  next
    case (Some inner)
    with Cons.prems(2) row obtain r where bad: "r \<in> set rows" "table (fst r) = None"
      by auto
    with Some have "fst r \<noteq> g0" by auto
    with bad have "\<exists>r \<in> set rows. (table(g0 \<mapsto> inner(t0 \<mapsto> status_of tk s0 f0))) (fst r) = None"
      by force
    moreover from Cons.prems(1) have "\<forall>r \<in> set rows. \<exists>tk. lookup (fst (snd r)) = Inr (Some tk)"
      by simp
    ultimately have "scoreboard_loop lookup rows (table(g0 \<mapsto> inner(t0 \<mapsto> status_of tk s0 f0))) =
        Inl KeyError"
      by (intro Cons.IH)
    then show ?thesis
      unfolding row loop_step_eq [where lookup = lookup and table = table, OF tk Some] .
  qed
qed

lemma keys_scoreboard_rows:
  "map (\<lambda>r. (fst r, fst (snd r))) (scoreboard_rows subs) =
     remdups (map (\<lambda>r. (group_id r, submission.task_id r)) subs)"
proof -
  have "map ((\<lambda>r. (fst r, fst (snd r))) \<circ>
          (\<lambda>(g, t). let rows = filter (\<lambda>r. group_id r = g \<and> submission.task_id r = t) subs
                   in (g, t, success_count rows, fail_count rows))) ks = ks" for ks
    by (induction ks) (auto simp: Let_def)
  then show ?thesis unfolding scoreboard_rows_def map_map .
qed

lemma distinct_scoreboard_rows:
  "distinct (map (\<lambda>r. (fst r, fst (snd r))) (scoreboard_rows subs))"
  unfolding keys_scoreboard_rows by simp

lemma set_scoreboard_rows:
  "(g, t, s, f) \<in> set (scoreboard_rows subs) \<longleftrightarrow>
     (\<exists>r \<in> set subs. group_id r = g \<and> submission.task_id r = t) \<and>
     get_submissions_statistics g t subs = (Some (s, f), None)"
  by (auto simp: scoreboard_rows_def get_submissions_statistics_def Let_def)

lemma group_of_scoreboard_rows:
  "fst ` set (scoreboard_rows subs) = group_id ` set subs"
  by (force simp: scoreboard_rows_def Let_def)

lemma task_of_scoreboard_rows:
  "(\<lambda>r. fst (snd r)) ` set (scoreboard_rows subs) = submission.task_id ` set subs"
  by (force simp: scoreboard_rows_def Let_def)

lemma initial_table_apply:
  "initial_table tasks g =
     (if 1 \<le> g \<and> g \<le> 9 then Some (map_of (map (\<lambda>tk. (task.task_id tk, 0)) tasks)) else None)"
  unfolding initial_table_def map_of_map_restrict by (simp add: restrict_map_def)

lemma initial_inner_apply:
  "map_of (map (\<lambda>tk. (task.task_id tk, 0 :: int)) tasks) t =
     (if t \<in> task.task_id ` set tasks then Some 0 else None)"
  by (induction tasks) auto

lemma get_task_by_id_known:
  "t \<in> task.task_id ` set tasks \<longleftrightarrow> (\<exists>tk. get_task_by_id tasks t = Inr (Some tk))"
  by (cases "find (\<lambda>tk. task.task_id tk = t) tasks")
     (auto simp: get_task_by_id_def find_None_iff find_Some_iff)

lemma get_scoreboard_Inr:
  "get_scoreboard tasks lookup subs = Inr res \<longleftrightarrow>
     (\<exists>table. scoreboard_loop lookup (scoreboard_rows subs) (initial_table tasks) = Inr table \<and>
        res = (Some table, None))"
  by (auto simp: get_scoreboard_def split: sum.splits)

lemma get_scoreboard_Inl:
  "get_scoreboard tasks lookup subs = Inl e \<longleftrightarrow>
     scoreboard_loop lookup (scoreboard_rows subs) (initial_table tasks) = Inl e"
  by (auto simp: get_scoreboard_def split: sum.splits)


lemma initial_table_dom: "dom (initial_table tasks) = {1..9}"
  by (auto simp: initial_table_apply dom_def)

lemma get_scoreboard_returns_iff:
  "(\<exists>table. get_scoreboard tasks (get_task_by_id tasks) subs = Inr (Some table, None)) \<longleftrightarrow>
     (\<forall>r \<in> set subs. 1 \<le> group_id r \<and> group_id r \<le> 9 \<and>
        submission.task_id r \<in> task.task_id ` set tasks)"
proof
  assume "\<exists>table. get_scoreboard tasks (get_task_by_id tasks) subs = Inr (Some table, None)"
  then obtain table
    where loop: "scoreboard_loop (get_task_by_id tasks) (scoreboard_rows subs) (initial_table tasks) = Inr table"
    unfolding get_scoreboard_Inr by blast
  show "\<forall>r \<in> set subs. 1 \<le> group_id r \<and> group_id r \<le> 9 \<and>
        submission.task_id r \<in> task.task_id ` set tasks"
  proof
    fix r assume r: "r \<in> set subs"
    obtain s f where "get_submissions_statistics (group_id r) (submission.task_id r) subs = (Some (s, f), None)"
      by (simp add: get_submissions_statistics_def Let_def)
    with r have "(group_id r, submission.task_id r, s, f) \<in> set (scoreboard_rows subs)"
      unfolding set_scoreboard_rows by blast
    from loop_rows_ok [OF loop this]
    show "1 \<le> group_id r \<and> group_id r \<le> 9 \<and> submission.task_id r \<in> task.task_id ` set tasks"
      unfolding get_task_by_id_known by (simp add: initial_table_apply split: if_splits)
  qed
next
  assume ok: "\<forall>r \<in> set subs. 1 \<le> group_id r \<and> group_id r \<le> 9 \<and>
        submission.task_id r \<in> task.task_id ` set tasks"
  have "\<forall>row \<in> set (scoreboard_rows subs).
      (\<exists>tk. get_task_by_id tasks (fst (snd row)) = Inr (Some tk)) \<and>
      initial_table tasks (fst row) \<noteq> None"
  proof
    fix row assume row: "row \<in> set (scoreboard_rows subs)"
    then have "fst row \<in> group_id ` set subs" "fst (snd row) \<in> submission.task_id ` set subs"
      unfolding group_of_scoreboard_rows [symmetric] task_of_scoreboard_rows [symmetric] by simp_all
    with ok have "1 \<le> fst row \<and> fst row \<le> 9" "fst (snd row) \<in> task.task_id ` set tasks"
      by auto
    then show "(\<exists>tk. get_task_by_id tasks (fst (snd row)) = Inr (Some tk)) \<and>
      initial_table tasks (fst row) \<noteq> None"
      unfolding get_task_by_id_known by (simp add: initial_table_apply)
  qed
  from loop_returns [OF this]
  show "\<exists>table. get_scoreboard tasks (get_task_by_id tasks) subs = Inr (Some table, None)"
    unfolding get_scoreboard_Inr by blast
qed

text \<open>
  Claim C6. Let \<^verbatim>\<open>get_task_by_id\<close> return a task only for identifiers of the catalog
  (for any other identifier it raises or returns \<^verbatim>\<open>None\<close>). Whenever
  \<^verbatim>\<open>get_scoreboard()\<close> returns a table, the keys of the table are exactly the groups 1..9
  and, for each of them, the keys of the inner dictionary are exactly the task
  identifiers of the catalog: every pair of a group and a catalog task has a status, and
  no other task appears, whatever the submissions are.
\<close>

theorem get_scoreboard_complete:
  assumes "get_scoreboard tasks lookup subs = Inr (Some table, None)"
    and "\<forall>t tk. lookup t = Inr (Some tk) \<longrightarrow> t \<in> task.task_id ` set tasks"
  shows "dom table = {1..9} \<and>
     (\<forall>g \<in> {1..9}. \<exists>inner. table g = Some inner \<and> dom inner = task.task_id ` set tasks)"
proof
  from assms(1)
  have loop: "scoreboard_loop lookup (scoreboard_rows subs) (initial_table tasks) = Inr table"
    unfolding get_scoreboard_Inr by blast
  from loop_dom [OF loop] show "dom table = {1..9}" by (simp only: initial_table_dom)
  show "\<forall>g \<in> {1..9}. \<exists>inner. table g = Some inner \<and> dom inner = task.task_id ` set tasks"
  proof
    fix g :: int assume "g \<in> {1..9}"
    then have init: "initial_table tasks g = Some (map_of (map (\<lambda>tk. (task.task_id tk, 0)) tasks))"
      by (simp add: initial_table_apply)
    from loop_inner_dom [OF loop init] obtain inner
      where inner: "table g = Some inner"
        and d: "dom inner = dom (map_of (map (\<lambda>tk. (task.task_id tk, 0 :: int)) tasks)) \<union>
          {t. \<exists>s f. (g, t, s, f) \<in> set (scoreboard_rows subs)}"
      by blast
    have d0: "dom (map_of (map (\<lambda>tk. (task.task_id tk, 0 :: int)) tasks)) = task.task_id ` set tasks"
      by (auto simp: initial_inner_apply dom_def)
    have "t \<in> task.task_id ` set tasks" if "(g, t, s, f) \<in> set (scoreboard_rows subs)" for t s f
      using loop_rows_ok [OF loop that] assms(2) by blast
    with d d0 have "dom inner = task.task_id ` set tasks" by blast
    with inner show "\<exists>inner. table g = Some inner \<and> dom inner = task.task_id ` set tasks"
      by blast
  qed
qed

text \<open>
  Claim C3, as amended. Whenever \<^verbatim>\<open>get_scoreboard()\<close> returns a table, for a group
  \<open>g\<close> of 1..9 and a task identifier \<open>t\<close> of the catalog, with \<open>tk\<close> the task
  \<^verbatim>\<open>get_task_by_id\<close> returns for \<open>t\<close> and \<open>(s, f)\<close> the success and fail counts of
  \<^verbatim>\<open>get_submissions_statistics\<close> for the pair: the status is \<open>-1\<close> when the pair has a
  submission, the task defines \<^verbatim>\<open>max_attempt\<close> and \<open>f\<close> is at least \<^verbatim>\<open>max_attempt\<close>,
  also when \<open>s\<close> is positive; otherwise it is 1 when \<open>s\<close> is positive; otherwise it is
  0. A pair with no submission has status 0. When the \<^verbatim>\<open>max_attempt\<close> of the task is
  positive or absent, the condition on a submission can be dropped.
\<close>

theorem get_scoreboard_status:
  assumes "get_scoreboard tasks lookup subs = Inr (Some table, None)"
    and "1 \<le> g" and "g \<le> 9"
    and "t \<in> task.task_id ` set tasks"
    and "lookup t = Inr (Some tk)"
    and "get_submissions_statistics g t subs = (Some (s, f), None)"
  shows "\<exists>inner. table g = Some inner \<and>
     inner t = Some (if (\<exists>r \<in> set subs. group_id r = g \<and> submission.task_id r = t) \<and>
                        (\<exists>m. max_attempt tk = Some m \<and> f \<ge> m) then - 1
                     else if s > 0 then 1 else 0) \<and>
     ((\<forall>m. max_attempt tk = Some m \<longrightarrow> m > 0) \<longrightarrow>
        inner t = Some (if (\<exists>m. max_attempt tk = Some m \<and> f \<ge> m) then - 1
                        else if s > 0 then 1 else 0))"
proof -
  from assms(1)
  have loop: "scoreboard_loop lookup (scoreboard_rows subs) (initial_table tasks) = Inr table"
    unfolding get_scoreboard_Inr by blast
  from assms(2,3) have init: "initial_table tasks g = Some (map_of (map (\<lambda>tk. (task.task_id tk, 0)) tasks))"
    by (simp add: initial_table_apply)
  show ?thesis
  proof (cases "\<exists>r \<in> set subs. group_id r = g \<and> submission.task_id r = t")
    case True
    with assms(6) have "(g, t, s, f) \<in> set (scoreboard_rows subs)"
      unfolding set_scoreboard_rows by blast
    from loop_assigned [OF loop distinct_scoreboard_rows this assms(5)] obtain inner
      where "table g = Some inner" "inner t = Some (status_of tk s f)" by blast
    with True show ?thesis
      by (auto simp: status_of_def split: option.splits)
  next
    case False
    then have "\<forall>s f. (g, t, s, f) \<notin> set (scoreboard_rows subs)"
      unfolding set_scoreboard_rows by blast
    from loop_untouched [OF loop init this] assms(4) obtain inner
      where inner: "table g = Some inner" "inner t = Some 0"
      by (auto simp: initial_inner_apply)
    from False have "filter (\<lambda>r. group_id r = g \<and> submission.task_id r = t) subs = []"
      by (auto simp: filter_empty_conv)
    with assms(6) have "s = 0" "f = 0"
      by (simp_all add: get_submissions_statistics_def success_count_def fail_count_def
          sql_sum_def coalesce_def)
    with inner False show ?thesis by auto
  qed
qed

text \<open>
  Claim C10, as amended. Whatever \<^verbatim>\<open>get_task_by_id\<close> does: when a submission has a group
  outside 1..9, \<^verbatim>\<open>get_scoreboard()\<close> leaves by an exception instead of returning a pair;
  the exception is \<^verbatim>\<open>KeyError\<close> when \<^verbatim>\<open>get_task_by_id\<close> returns a task for the task of
  every submission (otherwise the exception of an unknown task can come first). For a
  submission whose task is not in the catalog, the call leaves by an exception or
  returns a table that holds a status for that task under the group of the submission;
  with the \<^verbatim>\<open>get_task_by_id\<close> of the catalog it leaves by an exception.
\<close>

theorem get_scoreboard_uncaught:
  "((\<exists>r \<in> set subs. group_id r < 1 \<or> 9 < group_id r) \<longrightarrow>
      (\<exists>e. get_scoreboard tasks lookup subs = Inl e)) \<and>
   ((\<exists>r \<in> set subs. group_id r < 1 \<or> 9 < group_id r) \<and>
    (\<forall>r \<in> set subs. \<exists>tk. lookup (submission.task_id r) = Inr (Some tk)) \<longrightarrow>
      get_scoreboard tasks lookup subs = Inl KeyError) \<and>
   (\<forall>r \<in> set subs. submission.task_id r \<notin> task.task_id ` set tasks \<longrightarrow>
      (\<exists>e. get_scoreboard tasks lookup subs = Inl e) \<or>
      (\<exists>table inner st. get_scoreboard tasks lookup subs = Inr (Some table, None) \<and>
         table (group_id r) = Some inner \<and> inner (submission.task_id r) = Some st)) \<and>
   ((\<exists>r \<in> set subs. submission.task_id r \<notin> task.task_id ` set tasks) \<longrightarrow>
      (\<exists>e. get_scoreboard tasks (get_task_by_id tasks) subs = Inl e))"
proof (intro conjI impI ballI)
  assume "\<exists>r \<in> set subs. group_id r < 1 \<or> 9 < group_id r"
  then obtain g where "g \<in> group_id ` set subs" "g < 1 \<or> 9 < g" by blast
  then obtain row where row: "row \<in> set (scoreboard_rows subs)" "fst row < 1 \<or> 9 < fst row"
    unfolding group_of_scoreboard_rows [symmetric] by blast
  from row(2) have "initial_table tasks (fst row) = None"
    by (auto simp: initial_table_apply)
  with row(1) have "\<exists>row \<in> set (scoreboard_rows subs).
      \<not> ((\<exists>tk. lookup (fst (snd row)) = Inr (Some tk)) \<and> initial_table tasks (fst row) \<noteq> None)"
    by blast
  from loop_raises [OF this] show "\<exists>e. get_scoreboard tasks lookup subs = Inl e"
    unfolding get_scoreboard_Inl .
next
  assume a: "(\<exists>r \<in> set subs. group_id r < 1 \<or> 9 < group_id r) \<and>
    (\<forall>r \<in> set subs. \<exists>tk. lookup (submission.task_id r) = Inr (Some tk))"
  then obtain g where "g \<in> group_id ` set subs" "g < 1 \<or> 9 < g" by blast
  then obtain row where row: "row \<in> set (scoreboard_rows subs)" "fst row < 1 \<or> 9 < fst row"
    unfolding group_of_scoreboard_rows [symmetric] by blast
  from row(2) have "initial_table tasks (fst row) = None"
    by (auto simp: initial_table_apply)
  with row(1) have bad: "\<exists>row \<in> set (scoreboard_rows subs). initial_table tasks (fst row) = None"
    by blast
  have "\<forall>row \<in> set (scoreboard_rows subs). \<exists>tk. lookup (fst (snd row)) = Inr (Some tk)"
  proof
    fix row assume "row \<in> set (scoreboard_rows subs)"
    then have "fst (snd row) \<in> submission.task_id ` set subs"
      unfolding task_of_scoreboard_rows [symmetric] by simp
    with a show "\<exists>tk. lookup (fst (snd row)) = Inr (Some tk)" by auto
  qed
  from loop_KeyError [OF this bad] show "get_scoreboard tasks lookup subs = Inl KeyError"
    unfolding get_scoreboard_Inl .
next
  fix r assume r: "r \<in> set subs"
  show "(\<exists>e. get_scoreboard tasks lookup subs = Inl e) \<or>
      (\<exists>table inner st. get_scoreboard tasks lookup subs = Inr (Some table, None) \<and>
         table (group_id r) = Some inner \<and> inner (submission.task_id r) = Some st)"
  proof (cases "scoreboard_loop lookup (scoreboard_rows subs) (initial_table tasks)")
    case (Inl e)
    then show ?thesis unfolding get_scoreboard_Inl [symmetric] by blast
  next
    case (Inr table)
    obtain s f where "get_submissions_statistics (group_id r) (submission.task_id r) subs = (Some (s, f), None)"
      by (simp add: get_submissions_statistics_def Let_def)
    with r have row: "(group_id r, submission.task_id r, s, f) \<in> set (scoreboard_rows subs)"
      unfolding set_scoreboard_rows by blast
    from loop_rows_ok [OF Inr row] obtain tk
      where tk: "lookup (submission.task_id r) = Inr (Some tk)" by blast
    from loop_assigned [OF Inr distinct_scoreboard_rows row tk] obtain inner
      where "table (group_id r) = Some inner"
        "inner (submission.task_id r) = Some (status_of tk s f)" by blast
    moreover from Inr have "get_scoreboard tasks lookup subs = Inr (Some table, None)"
      unfolding get_scoreboard_Inr by blast
    ultimately show ?thesis by blast
  qed
next
  assume "\<exists>r \<in> set subs. submission.task_id r \<notin> task.task_id ` set tasks"
  then have "\<not> (\<exists>table. get_scoreboard tasks (get_task_by_id tasks) subs = Inr (Some table, None))"
    unfolding get_scoreboard_returns_iff by blast
  then show "\<exists>e. get_scoreboard tasks (get_task_by_id tasks) subs = Inl e"
    by (cases "scoreboard_loop (get_task_by_id tasks) (scoreboard_rows subs) (initial_table tasks)")
       (auto simp: get_scoreboard_def)
qed

text \<open>
  Claim C3 as it is written fails for a pair with no submission when \<^verbatim>\<open>max_attempt\<close>
  is 0: the fail count 0 reaches \<^verbatim>\<open>max_attempt\<close>, so the rule of the claim gives
  \<open>-1\<close>, and the table holds 0, since the loop only visits pairs that have a submission.
\<close>

theorem get_scoreboard_status_counterexample:
  "status_at (get_scoreboard [\<lparr>task.task_id = ''t'', max_attempt = Some 0\<rparr>]
       (get_task_by_id [\<lparr>task.task_id = ''t'', max_attempt = Some 0\<rparr>]) []) 1 ''t'' = Some 0 \<and>
   get_submissions_statistics 1 ''t'' [] = (Some (0, 0), None) \<and>
   max_attempt \<lparr>task.task_id = ''t'', max_attempt = Some 0\<rparr> = Some 0 \<and>
   status_of \<lparr>task.task_id = ''t'', max_attempt = Some 0\<rparr> 0 0 = - 1"
proof -
  let ?tasks = "[\<lparr>task.task_id = ''t'', max_attempt = Some 0\<rparr>]"
  have rows: "scoreboard_rows [] = []"
    by (simp add: scoreboard_rows_def)
  have "get_scoreboard ?tasks (get_task_by_id ?tasks) [] = Inr (Some (initial_table ?tasks), None)"
    by (simp add: get_scoreboard_def rows)
  then have "status_at (get_scoreboard ?tasks (get_task_by_id ?tasks) []) 1 ''t'' = Some 0"
    by (simp add: status_at_def initial_table_apply)
  moreover have "get_submissions_statistics 1 ''t'' [] = (Some (0, 0), None)"
    by (simp add: get_submissions_statistics_def success_count_def fail_count_def sql_sum_def
        coalesce_def)
  moreover have "status_of \<lparr>task.task_id = ''t'', max_attempt = Some 0\<rparr> 0 0 = - 1"
    by (simp add: status_of_def)
  ultimately show ?thesis by simp
qed

text \<open>
  The cases of the spec for a task with \<^verbatim>\<open>max_attempt = 3\<close>: three failures and a later
  success (exhausted), one failure and one success (solved), and a pair with no
  submission (unsolved).
\<close>

theorem get_scoreboard_status_witness:
  "status_at (get_scoreboard
       [\<lparr>task.task_id = ''t1'', max_attempt = Some 3\<rparr>, \<lparr>task.task_id = ''t2'', max_attempt = None\<rparr>]
       (get_task_by_id
          [\<lparr>task.task_id = ''t1'', max_attempt = Some 3\<rparr>, \<lparr>task.task_id = ''t2'', max_attempt = None\<rparr>])
       [\<lparr>group_id = 2, task_id = ''t1'', password = ''a'', is_correct = False\<rparr>,
        \<lparr>group_id = 3, task_id = ''t1'', password = ''b'', is_correct = False\<rparr>,
        \<lparr>group_id = 2, task_id = ''t1'', password = ''c'', is_correct = False\<rparr>,
        \<lparr>group_id = 3, task_id = ''t1'', password = ''d'', is_correct = True\<rparr>,
        \<lparr>group_id = 2, task_id = ''t1'', password = ''e'', is_correct = False\<rparr>,
        \<lparr>group_id = 2, task_id = ''t1'', password = ''f'', is_correct = True\<rparr>]) 2 ''t1'' = Some (- 1) \<and>
   status_at (get_scoreboard
       [\<lparr>task.task_id = ''t1'', max_attempt = Some 3\<rparr>, \<lparr>task.task_id = ''t2'', max_attempt = None\<rparr>]
       (get_task_by_id
          [\<lparr>task.task_id = ''t1'', max_attempt = Some 3\<rparr>, \<lparr>task.task_id = ''t2'', max_attempt = None\<rparr>])
       [\<lparr>group_id = 2, task_id = ''t1'', password = ''a'', is_correct = False\<rparr>,
        \<lparr>group_id = 3, task_id = ''t1'', password = ''b'', is_correct = False\<rparr>,
        \<lparr>group_id = 2, task_id = ''t1'', password = ''c'', is_correct = False\<rparr>,
        \<lparr>group_id = 3, task_id = ''t1'', password = ''d'', is_correct = True\<rparr>,
        \<lparr>group_id = 2, task_id = ''t1'', password = ''e'', is_correct = False\<rparr>,
        \<lparr>group_id = 2, task_id = ''t1'', password = ''f'', is_correct = True\<rparr>]) 3 ''t1'' = Some 1 \<and>
   status_at (get_scoreboard
       [\<lparr>task.task_id = ''t1'', max_attempt = Some 3\<rparr>, \<lparr>task.task_id = ''t2'', max_attempt = None\<rparr>]
       (get_task_by_id
          [\<lparr>task.task_id = ''t1'', max_attempt = Some 3\<rparr>, \<lparr>task.task_id = ''t2'', max_attempt = None\<rparr>])
       [\<lparr>group_id = 2, task_id = ''t1'', password = ''a'', is_correct = False\<rparr>,
        \<lparr>group_id = 3, task_id = ''t1'', password = ''b'', is_correct = False\<rparr>,
        \<lparr>group_id = 2, task_id = ''t1'', password = ''c'', is_correct = False\<rparr>,
        \<lparr>group_id = 3, task_id = ''t1'', password = ''d'', is_correct = True\<rparr>,
        \<lparr>group_id = 2, task_id = ''t1'', password = ''e'', is_correct = False\<rparr>,
        \<lparr>group_id = 2, task_id = ''t1'', password = ''f'', is_correct = True\<rparr>]) 4 ''t2'' = Some 0"
proof -
  let ?tasks = "[\<lparr>task.task_id = ''t1'', max_attempt = Some 3\<rparr>, \<lparr>task.task_id = ''t2'', max_attempt = None\<rparr>]"
  let ?subs = "[\<lparr>group_id = 2, task_id = ''t1'', password = ''a'', is_correct = False\<rparr>,
        \<lparr>group_id = 3, task_id = ''t1'', password = ''b'', is_correct = False\<rparr>,
        \<lparr>group_id = 2, task_id = ''t1'', password = ''c'', is_correct = False\<rparr>,
        \<lparr>group_id = 3, task_id = ''t1'', password = ''d'', is_correct = True\<rparr>,
        \<lparr>group_id = 2, task_id = ''t1'', password = ''e'', is_correct = False\<rparr>,
        \<lparr>group_id = 2, task_id = ''t1'', password = ''f'', is_correct = True\<rparr>]"
  have "\<forall>r \<in> set ?subs. 1 \<le> group_id r \<and> group_id r \<le> 9 \<and>
      submission.task_id r \<in> task.task_id ` set ?tasks"
    by simp
  then obtain table
    where ret: "get_scoreboard ?tasks (get_task_by_id ?tasks) ?subs = Inr (Some table, None)"
    unfolding get_scoreboard_returns_iff [symmetric] by blast
  have t1: "get_task_by_id ?tasks ''t1'' = Inr (Some \<lparr>task.task_id = ''t1'', max_attempt = Some 3\<rparr>)"
    and t2: "get_task_by_id ?tasks ''t2'' = Inr (Some \<lparr>task.task_id = ''t2'', max_attempt = None\<rparr>)"
    by (simp_all add: get_task_by_id_def)
  have s2: "get_submissions_statistics 2 ''t1'' ?subs = (Some (1, 3), None)"
    and s3: "get_submissions_statistics 3 ''t1'' ?subs = (Some (1, 1), None)"
    and s4: "get_submissions_statistics 4 ''t2'' ?subs = (Some (0, 0), None)"
    by (simp_all add: get_submissions_statistics_lengths)
  have k1: "''t1'' \<in> task.task_id ` set ?tasks" and k2: "''t2'' \<in> task.task_id ` set ?tasks"
    by simp_all
  from get_scoreboard_status [OF ret _ _ k1 t1 s2]
  have "status_at (Inr (Some table, None)) 2 ''t1'' = Some (- 1)"
    by (auto simp: status_at_def)
  moreover from get_scoreboard_status [OF ret _ _ k1 t1 s3]
  have "status_at (Inr (Some table, None)) 3 ''t1'' = Some 1"
    by (auto simp: status_at_def)
  moreover from get_scoreboard_status [OF ret _ _ k2 t2 s4]
  have "status_at (Inr (Some table, None)) 4 ''t2'' = Some 0"
    by (auto simp: status_at_def)
  ultimately show ?thesis unfolding ret by blast
qed

text \<open>
  A catalog of two tasks and two submissions: the table returned has the keys 1..9, and
  group 3 has exactly the two tasks.
\<close>

theorem get_scoreboard_complete_witness:
  "\<exists>table inner.
     get_scoreboard
       [\<lparr>task.task_id = ''t1'', max_attempt = Some 3\<rparr>, \<lparr>task.task_id = ''t2'', max_attempt = None\<rparr>]
       (get_task_by_id
          [\<lparr>task.task_id = ''t1'', max_attempt = Some 3\<rparr>, \<lparr>task.task_id = ''t2'', max_attempt = None\<rparr>])
       [\<lparr>group_id = 2, task_id = ''t1'', password = ''a'', is_correct = False\<rparr>,
        \<lparr>group_id = 3, task_id = ''t2'', password = ''b'', is_correct = True\<rparr>] =
       Inr (Some table, None) \<and>
     dom table = {1..9} \<and> table 3 = Some inner \<and> dom inner = {''t1'', ''t2''}"
proof -
  let ?tasks = "[\<lparr>task.task_id = ''t1'', max_attempt = Some 3\<rparr>, \<lparr>task.task_id = ''t2'', max_attempt = None\<rparr>]"
  let ?subs = "[\<lparr>group_id = 2, task_id = ''t1'', password = ''a'', is_correct = False\<rparr>,
        \<lparr>group_id = 3, task_id = ''t2'', password = ''b'', is_correct = True\<rparr>]"
  have "\<forall>r \<in> set ?subs. 1 \<le> group_id r \<and> group_id r \<le> 9 \<and>
      submission.task_id r \<in> task.task_id ` set ?tasks"
    by simp
  then obtain table
    where ret: "get_scoreboard ?tasks (get_task_by_id ?tasks) ?subs = Inr (Some table, None)"
    unfolding get_scoreboard_returns_iff [symmetric] by blast
  have "\<forall>t tk. get_task_by_id ?tasks t = Inr (Some tk) \<longrightarrow> t \<in> task.task_id ` set ?tasks"
    unfolding get_task_by_id_known by blast
  from get_scoreboard_complete [OF ret this]
  have d: "dom table = {1..9}"
    and all: "\<forall>g \<in> {1..9}. \<exists>inner. table g = Some inner \<and> dom inner = task.task_id ` set ?tasks"
    by blast+
  from all have "\<exists>inner. table 3 = Some inner \<and> dom inner = task.task_id ` set ?tasks"
    by (rule bspec) simp
  then obtain inner where i: "table 3 = Some inner" and "dom inner = task.task_id ` set ?tasks"
    by blast
  then have di: "dom inner = {''t1'', ''t2''}" by simp
  from ret d i di show ?thesis
    by - (rule exI [of _ table], rule exI [of _ inner], (rule conjI, assumption)+, assumption)
qed

text \<open>
  Claim C10 as it is written fails when the submission of a group outside 1..9 is for
  a task the catalog lacks: \<^verbatim>\<open>get_task_by_id\<close> returns \<^verbatim>\<open>None\<close>, and the test
  \<^verbatim>\<open>'max_attempt' in task\<close> raises \<^verbatim>\<open>TypeError\<close> before \<^verbatim>\<open>table[group_id]\<close> is
  reached, so the exception is not \<^verbatim>\<open>KeyError\<close>.
\<close>

theorem get_scoreboard_type_error_counterexample:
  "get_scoreboard [\<lparr>task.task_id = ''t1'', max_attempt = Some 3\<rparr>]
     (get_task_by_id [\<lparr>task.task_id = ''t1'', max_attempt = Some 3\<rparr>])
     [\<lparr>group_id = 12, task_id = ''zz'', password = ''a'', is_correct = True\<rparr>] = Inl TypeError"
proof -
  have rows: "scoreboard_rows [\<lparr>group_id = 12, task_id = ''zz'', password = ''a'', is_correct = True\<rparr>] =
      [(12, ''zz'', 1, 0)]"
    by (simp add: scoreboard_rows_def success_count_length fail_count_length)
  show ?thesis
    unfolding get_scoreboard_def rows by (simp add: get_task_by_id_def)
qed

text \<open>
  A submission of group 12 ends the call with \<^verbatim>\<open>KeyError\<close>; a submission for a task the
  catalog lacks ends it with \<^verbatim>\<open>TypeError\<close>; and with a \<^verbatim>\<open>get_task_by_id\<close> that returns a
  task for every identifier, that task enters the table.
\<close>

theorem get_scoreboard_uncaught_witness:
  "get_scoreboard [\<lparr>task.task_id = ''t1'', max_attempt = Some 3\<rparr>]
     (get_task_by_id [\<lparr>task.task_id = ''t1'', max_attempt = Some 3\<rparr>])
     [\<lparr>group_id = 2, task_id = ''t1'', password = ''a'', is_correct = False\<rparr>,
      \<lparr>group_id = 12, task_id = ''t1'', password = ''b'', is_correct = True\<rparr>] = Inl KeyError \<and>
   get_scoreboard [\<lparr>task.task_id = ''t1'', max_attempt = Some 3\<rparr>]
     (get_task_by_id [\<lparr>task.task_id = ''t1'', max_attempt = Some 3\<rparr>])
     [\<lparr>group_id = 2, task_id = ''zz'', password = ''a'', is_correct = True\<rparr>] = Inl TypeError \<and>
   status_at (get_scoreboard [\<lparr>task.task_id = ''t1'', max_attempt = Some 3\<rparr>]
     (\<lambda>t. Inr (Some \<lparr>task.task_id = t, max_attempt = None\<rparr>))
     [\<lparr>group_id = 2, task_id = ''zz'', password = ''a'', is_correct = True\<rparr>]) 2 ''zz'' = Some 1"
proof -
  let ?tasks = "[\<lparr>task.task_id = ''t1'', max_attempt = Some 3\<rparr>]"
  let ?bad = "[\<lparr>group_id = 2, task_id = ''t1'', password = ''a'', is_correct = False\<rparr>,
      \<lparr>group_id = 12, task_id = ''t1'', password = ''b'', is_correct = True\<rparr>]"
  let ?unknown = "[\<lparr>group_id = 2, task_id = ''zz'', password = ''a'', is_correct = True\<rparr>]"
  let ?any = "\<lambda>t. Inr (Some \<lparr>task.task_id = t, max_attempt = None\<rparr>) :: py_error + task option"
  have g: "\<exists>r \<in> set ?bad. group_id r < 1 \<or> 9 < group_id r" by simp
  have k: "\<forall>r \<in> set ?bad. \<exists>tk. get_task_by_id ?tasks (submission.task_id r) = Inr (Some tk)"
    by (simp add: get_task_by_id_def)
  from get_scoreboard_uncaught [of ?bad ?tasks "get_task_by_id ?tasks"] g k
  have 1: "get_scoreboard ?tasks (get_task_by_id ?tasks) ?bad = Inl KeyError" by blast
  have u: "\<exists>r \<in> set ?unknown. submission.task_id r \<notin> task.task_id ` set ?tasks" by simp
  from get_scoreboard_uncaught [of ?unknown ?tasks "get_task_by_id ?tasks"] u
  obtain e where "get_scoreboard ?tasks (get_task_by_id ?tasks) ?unknown = Inl e" by blast
  moreover have rows: "scoreboard_rows ?unknown = [(2, ''zz'', 1, 0)]"
    by (simp add: scoreboard_rows_def success_count_length fail_count_length)
  have "get_scoreboard ?tasks (get_task_by_id ?tasks) ?unknown = Inl TypeError"
    unfolding get_scoreboard_def rows by (simp add: get_task_by_id_def)
  ultimately have 2: "get_scoreboard ?tasks (get_task_by_id ?tasks) ?unknown = Inl TypeError"
    by simp
  have 3: "status_at (get_scoreboard ?tasks ?any ?unknown) 2 ''zz'' = Some 1"
    unfolding get_scoreboard_def rows
    by (simp add: initial_table_apply status_at_def status_of_def)
  from 1 2 3 show ?thesis by (intro conjI)
qed

end
